theory Spec2Isabelle
  imports Complex_Main
begin

section \<open>The roster: \<open>Person\<close> records and the in-memory array\<close>

text \<open>
  \<open>people.service.ts\<close> keeps the roster in the array \<open>this.people\<close>. A \<open>Person\<close> has the
  fields \<open>id\<close>, \<open>name\<close>, \<open>birthDate\<close> and the optional \<open>telegramUsername\<close>; the argument of
  \<open>addPerson\<close> is \<open>Omit<Person, 'id'>\<close>, so a person is the candidate record extended by
  its id (the field is written \<open>id'\<close>, since \<open>id\<close> is the identity function of HOL).
  Ids are JavaScript numbers; they are modelled as unbounded integers, which is exact
  below \<open>2^53\<close>. Strings are lists of 8-bit code units. The array is a list, passed in and
  returned by every operation that changes it. \<open>saveDataToFile\<close> only mirrors the array to
  disk, catches its own failures and never changes the array, so it is left out.
\<close>

record candidate =
  name :: string
  birthDate :: string
  telegramUsername :: "string option"

record person = candidate +
  id' :: int

text \<open>\<open>getPersonById\<close>: \<open>this.people.find(person => person.id === id)\<close>.\<close>

definition getPersonById :: "int \<Rightarrow> person list \<Rightarrow> person option" where
  "getPersonById i people = find (\<lambda>person. id' person = i) people"

text \<open>
  \<open>addPerson\<close>: the new id is \<open>Math.max(...ids) + 1\<close> when the array is not empty and \<open>1\<close>
  otherwise; the new person is pushed at the end. The result is the new person and the
  array after the push.
\<close>

definition addPerson :: "candidate \<Rightarrow> person list \<Rightarrow> person \<times> person list" where
  "addPerson person people =
     (let newPerson =
        \<lparr>name = name person, birthDate = birthDate person,
         telegramUsername = telegramUsername person,
         id' = (case map id' people of
                  [] \<Rightarrow> 1
                | p # ps \<Rightarrow> fold max ps p + 1)\<rparr>
      in (newPerson, people @ [newPerson]))"

text \<open>
  \<open>removePerson\<close>: \<open>findIndex\<close> gives the first index whose person has the id (\<open>None\<close>
  stands for \<open>-1\<close>), \<open>splice(index, 1)\<close> removes that one element.
\<close>

fun findIndex :: "('a \<Rightarrow> bool) \<Rightarrow> 'a list \<Rightarrow> nat option" where
  "findIndex P [] = None"
| "findIndex P (x # xs) = (if P x then Some 0 else map_option Suc (findIndex P xs))"

definition splice1 :: "nat \<Rightarrow> 'a list \<Rightarrow> 'a list" where
  "splice1 index xs = take index xs @ drop (Suc index) xs"

definition removePerson :: "int \<Rightarrow> person list \<Rightarrow> bool \<times> person list" where
  "removePerson i people =
     (case findIndex (\<lambda>person. id' person = i) people of
        Some index \<Rightarrow> (True, splice1 index people)
      | None \<Rightarrow> (False, people))"

section \<open>The date library as the service uses it\<close>

text \<open>
  The service calls the \<open>dayjs\<close> library with the \<open>customParseFormat\<close> plugin. A valid
  \<open>dayjs\<close> value is a record of its local calendar fields \<open>$y\<close>, \<open>$M\<close> (0 to 11), \<open>$D\<close> and the
  milliseconds since local midnight; an invalid one (\<open>Invalid Date\<close>) is \<open>None\<close>, and the
  \<open>NaN\<close> its accessors return is \<open>None\<close> as well. Local time is taken to have a constant
  offset to UTC over the instants compared.
\<close>

record dayjs =
  dj_year :: int
  dj_month :: int
  dj_date :: int
  dj_ms :: int

definition isLeapYear :: "int \<Rightarrow> bool" where
  "isLeapYear y \<longleftrightarrow> (y mod 4 = 0 \<and> y mod 100 \<noteq> 0) \<or> y mod 400 = 0"

definition daysInMonth :: "int \<Rightarrow> int \<Rightarrow> int" where
  "daysInMonth y M =
     (if M = 1 then (if isLeapYear y then 29 else 28)
      else if M = 3 \<or> M = 5 \<or> M = 8 \<or> M = 10 then 30 else 31)"

text \<open>
  \<open>new Date(y, M, d)\<close> of JavaScript: a year from 0 to 99 means 1900 plus that year, a
  month index outside 0 to 11 carries into the year, and a day beyond the end of the
  month rolls into the following months. It is only called with \<open>d \<ge> 1\<close>.
\<close>

function rollDays :: "int \<Rightarrow> int \<Rightarrow> int \<Rightarrow> dayjs" where
  "rollDays y M d =
     (if daysInMonth y M < d
      then (if M = 11 then rollDays (y + 1) 0 (d - daysInMonth y M)
            else rollDays y (M + 1) (d - daysInMonth y M))
      else \<lparr>dj_year = y, dj_month = M, dj_date = d, dj_ms = 0\<rparr>)"
  by pat_completeness auto
termination
  by (relation "measure (\<lambda>(y, M, d). nat d)") (auto simp: daysInMonth_def split: if_splits)

declare rollDays.simps [simp del]

definition js_Date :: "int \<Rightarrow> int \<Rightarrow> int \<Rightarrow> dayjs" where
  "js_Date y M d =
     (let fy = (if 0 \<le> y \<and> y \<le> 99 then 1900 + y else y)
      in rollDays (fy + M div 12) (M mod 12) d)"

text \<open>
  Decimal digits: \<open>\d\<close> of a regular expression, \<open>+value\<close> on a text of digits, and
  \<open>String(n).padStart(w, '0')\<close>. \<open>digitChar\<close> is applied to numbers below 10 only, and
  \<open>toNumber\<close> to texts of digits only.
\<close>

definition digitChars :: string where
  "digitChars = ''0123456789''"

definition isDigit :: "char \<Rightarrow> bool" where
  "isDigit c \<longleftrightarrow> c \<in> set digitChars"

definition digitChar :: "nat \<Rightarrow> char" where
  "digitChar n = digitChars ! n"

definition digitVal :: "char \<Rightarrow> nat" where
  "digitVal c = of_char c - 48"

definition toNumber :: "string \<Rightarrow> nat" where
  "toNumber s = foldl (\<lambda>acc c. 10 * acc + digitVal c) 0 s"

function padStart0 :: "nat \<Rightarrow> nat \<Rightarrow> string" where
  "padStart0 w n =
     (if n < 10 \<and> w \<le> 1 then [digitChar n]
      else padStart0 (w - 1) (n div 10) @ [digitChar (n mod 10)])"
  by pat_completeness auto
termination
  by (relation "measure (\<lambda>(w, n). w + n)") auto

declare padStart0.simps [simp del]

text \<open>\<open>format('DD.MM.YYYY')\<close>: day and month (1 to 12) on two digits, the year on four.\<close>

definition format_DDMMYYYY :: "dayjs \<Rightarrow> string" where
  "format_DDMMYYYY t =
     padStart0 2 (nat (dj_date t)) @ ''.'' @ padStart0 2 (nat (dj_month t + 1)) @ ''.'' @
     padStart0 4 (nat (dj_year t))"

text \<open>The regular expression \<open>/^\d{2}\.\d{2}\.\d{4}$/\<close> of \<open>addPersonFromTelegramWithValidation\<close>.\<close>

definition dateRegex_test :: "string \<Rightarrow> bool" where
  "dateRegex_test s \<longleftrightarrow>
     length s = 10 \<and> list_all (\<lambda>i. isDigit (s ! i)) [0, 1, 3, 4, 6, 7, 8, 9] \<and>
     s ! 2 = CHR ''.'' \<and> s ! 5 = CHR ''.''"

text \<open>
  \<open>dayjs(input, 'DD.MM.YYYY', true)\<close>. The plugin reads the day, the month and the year from
  the input, builds \<open>new Date(year, month - 1, day)\<close> and, in strict mode, keeps the result
  only when formatting it with \<open>'DD.MM.YYYY'\<close> gives the input back. The formatted text
  always consists of two digits, a dot, two digits, a dot and at least four digits, and
  an input of that shape with more than four year digits is read with a year below
  10000, so an input that the regular expression above does not match is never given
  back; on an input that it matches the three fields are read at their positions. A
  field that is zero is replaced by the plugin with a part of the current date (or
  with 1), which is not zero, so that the formatted text differs from the input: such
  an input is invalid whatever the current date is.
\<close>

definition parseFormattedInput :: "string \<Rightarrow> dayjs option" where
  "parseFormattedInput input =
     (if \<not> dateRegex_test input then None
      else
        let day = int (toNumber (take 2 input));
            month = int (toNumber (take 2 (drop 3 input)));
            year = int (toNumber (drop 6 input))
        in if day = 0 \<or> month = 0 \<or> year = 0 then None
           else Some (js_Date year (month - 1) day))"

definition dayjs_strict :: "string \<Rightarrow> dayjs option" where
  "dayjs_strict input =
     (case parseFormattedInput input of
        None \<Rightarrow> None
      | Some t \<Rightarrow> if format_DDMMYYYY t = input then Some t else None)"

text \<open>\<open>.date()\<close> and \<open>.month()\<close> of a parsed value (\<open>NaN\<close> when invalid), and \<open>===\<close> on numbers.\<close>

definition date_of :: "dayjs option \<Rightarrow> int option" where
  "date_of t = map_option dj_date t"

definition month_of :: "dayjs option \<Rightarrow> int option" where
  "month_of t = map_option dj_month t"

fun strictEq :: "int option \<Rightarrow> int option \<Rightarrow> bool" where
  "strictEq (Some a) (Some b) = (a = b)"
| "strictEq _ _ = False"

text \<open>
  \<open>.add(n, 'month')\<close>: the month index moves by \<open>n\<close> and carries into the year, the day of
  the month is cut down to the length of the new month.
\<close>

definition add_month :: "dayjs \<Rightarrow> int \<Rightarrow> dayjs" where
  "add_month t n =
     (let y = dj_year t + (dj_month t + n) div 12;
          M = (dj_month t + n) mod 12
      in t\<lparr>dj_year := y, dj_month := M, dj_date := min (dj_date t) (daysInMonth y M)\<rparr>)"

text \<open>\<open>valueOf\<close>: milliseconds on the local time line (up to the constant offset).\<close>

definition daysBeforeYear :: "int \<Rightarrow> int" where
  "daysBeforeYear y = 365 * (y - 1) + (y - 1) div 4 - (y - 1) div 100 + (y - 1) div 400"

definition daysBeforeMonth :: "int \<Rightarrow> int \<Rightarrow> int" where
  "daysBeforeMonth y M = sum_list (map (\<lambda>k. daysInMonth y (int k)) [0..<nat M])"

definition valueOf :: "dayjs \<Rightarrow> int" where
  "valueOf t =
     (daysBeforeYear (dj_year t) + daysBeforeMonth (dj_year t) (dj_month t) + (dj_date t - 1))
       * 86400000 + dj_ms t"

text \<open>
  \<open>a.diff(b, 'year')\<close> is \<open>absFloor(monthDiff(a, b) / 12)\<close>. \<open>monthDiff\<close> is the library's
  function of that name; the quotients are taken in exact rational arithmetic.
\<close>

function monthDiff :: "dayjs \<Rightarrow> dayjs \<Rightarrow> rat" where
  "monthDiff a b =
     (if dj_date a < dj_date b then - monthDiff b a
      else
        let wholeMonthDiff = (dj_year b - dj_year a) * 12 + (dj_month b - dj_month a);
            anchor = add_month a wholeMonthDiff;
            c = (valueOf b - valueOf anchor < 0);
            anchor2 = add_month a (wholeMonthDiff + (if c then - 1 else 1))
        in - (of_int wholeMonthDiff +
              of_int (valueOf b - valueOf anchor) /
                of_int (if c then valueOf anchor - valueOf anchor2
                        else valueOf anchor2 - valueOf anchor)))"
  by pat_completeness auto
termination
  by (relation "measure (\<lambda>(a, b). if dj_date a < dj_date b then 1 else 0)") auto

declare monthDiff.simps [simp del]

definition absFloor :: "rat \<Rightarrow> int" where
  "absFloor n = (if n < 0 then \<lceil>n\<rceil> else \<lfloor>n\<rfloor>)"

definition diff_year :: "dayjs \<Rightarrow> dayjs \<Rightarrow> int" where
  "diff_year this that = absFloor (monthDiff this that / 12)"

section \<open>Birthday queries of the service\<close>

text \<open>
  \<open>dayjs()\<close>, the current moment, is the argument \<open>today\<close> of the functions that read it.
\<close>

definition getPeopleWithBirthdayToday :: "dayjs \<Rightarrow> person list \<Rightarrow> person list" where
  "getPeopleWithBirthdayToday today people =
     filter (\<lambda>person.
        let birth = dayjs_strict (birthDate person)
        in strictEq (date_of birth) (Some (dj_date today)) \<and>
           strictEq (month_of birth) (Some (dj_month today))) people"

text \<open>\<open>getPersonAge\<close>; \<open>None\<close> is the \<open>NaN\<close> that \<open>diff\<close> gives for an invalid birth date.\<close>

definition getPersonAge :: "person \<Rightarrow> dayjs \<Rightarrow> int option" where
  "getPersonAge person today =
     (case dayjs_strict (birthDate person) of
        None \<Rightarrow> None
      | Some birth \<Rightarrow> Some (diff_year today birth))"

section \<open>Adding from a chat command, with validation\<close>

text \<open>
  The string methods used on the username: \<open>replace('@', '')\<close> removes the first \<open>@\<close> only
  (a string pattern replaces one occurrence), \<open>trim()\<close> removes white space at both ends,
  \<open>toLowerCase()\<close> maps the capital letters of the code units below 256 to small ones.
\<close>

fun replace_first :: "char \<Rightarrow> string \<Rightarrow> string" where
  "replace_first x [] = []"
| "replace_first x (c # cs) = (if c = x then cs else c # replace_first x cs)"

definition isWhiteSpace :: "char \<Rightarrow> bool" where
  "isWhiteSpace c \<longleftrightarrow> (of_char c :: nat) \<in> {9, 10, 11, 12, 13, 32, 160}"

definition trim :: "string \<Rightarrow> string" where
  "trim s = rev (dropWhile isWhiteSpace (rev (dropWhile isWhiteSpace s)))"

definition toLowerChar :: "char \<Rightarrow> char" where
  "toLowerChar c =
     (let n = (of_char c :: nat)
      in if (65 \<le> n \<and> n \<le> 90) \<or> (192 \<le> n \<and> n \<le> 222 \<and> n \<noteq> 215)
         then char_of (n + 32) else c)"

definition toLowerCase :: "string \<Rightarrow> string" where
  "toLowerCase s = map toLowerChar s"

text \<open>
  The five \<open>throw new Error(...)\<close> of \<open>addPersonFromTelegramWithValidation\<close>, in the order
  of the checks; the last message carries the cleaned username.
\<close>

datatype error =
  InvalidDateFormat
| IncorrectDate
| UsernameRequired
| UsernameEmpty
| AlreadyInList string

text \<open>
  The result is the thrown error or the stored person, together with the array after
  the call. The optional \<open>telegramUsername\<close> argument is \<open>None\<close> when it is absent;
  \<open>!telegramUsername\<close> also holds for the empty string. The arguments \<open>bot\<close> and \<open>chatId\<close>
  are not used by the body.
\<close>

definition addPersonFromTelegramWithValidation ::
  "string \<Rightarrow> string \<Rightarrow> string option \<Rightarrow> person list \<Rightarrow> (error + person) \<times> person list" where
  "addPersonFromTelegramWithValidation nameArg birthDateArg usernameArg people =
     (if \<not> dateRegex_test birthDateArg then (Inl InvalidDateFormat, people)
      else if dayjs_strict birthDateArg = None then (Inl IncorrectDate, people)
      else case usernameArg of
        None \<Rightarrow> (Inl UsernameRequired, people)
      | Some username \<Rightarrow>
          if username = [] then (Inl UsernameRequired, people)
          else
            let cleanUsername = trim (replace_first (CHR ''@'') username)
            in if length cleanUsername = 0 then (Inl UsernameEmpty, people)
               else if list_ex (\<lambda>p. case telegramUsername p of
                                       None \<Rightarrow> False
                                     | Some u \<Rightarrow> toLowerCase u = toLowerCase cleanUsername) people
               then (Inl (AlreadyInList cleanUsername), people)
               else case addPerson \<lparr>name = nameArg, birthDate = birthDateArg,
                                     telegramUsername = Some cleanUsername\<rparr> people of
                      (newPerson, people') \<Rightarrow> (Inr newPerson, people'))"

text \<open>Sequences of roster operations, for statements about every history of the Store.\<close>

datatype operation =
  Add candidate
| AddValidated string string "string option"
| Remove int

fun apply_operation :: "operation \<Rightarrow> person list \<Rightarrow> person list" where
  "apply_operation (Add c) people = snd (addPerson c people)"
| "apply_operation (AddValidated n b u) people =
     snd (addPersonFromTelegramWithValidation n b u people)"
| "apply_operation (Remove i) people = snd (removePerson i people)"

definition run_operations :: "operation list \<Rightarrow> person list \<Rightarrow> person list" where
  "run_operations ops people = fold apply_operation ops people"

section \<open>Statistics\<close>

text \<open>
  \<open>(total / 12).toFixed(1)\<close>: the integer \<open>n\<close> with \<open>n / 10\<close> nearest to the value, the larger
  one at a tie, written with at least two digits and a point before the last one. The
  quotient is taken exactly; a tie arises only at a multiple of a quarter, which a
  double holds exactly.
\<close>

definition toFixed1 :: "rat \<Rightarrow> string" where
  "toFixed1 x =
     (let n = nat \<lfloor>x * 10 + 1 / 2\<rfloor>;
          m = padStart0 2 n
      in butlast m @ ''.'' @ [last m])"

record monthStat =
  month :: nat
  count :: nat

record birthdayStats =
  total :: nat
  thisMonth :: nat
  nextMonth :: nat
  monthlyStats :: "monthStat list"
  averagePerMonth :: string

definition getBirthdayStats :: "dayjs \<Rightarrow> person list \<Rightarrow> birthdayStats" where
  "getBirthdayStats today people =
     \<lparr>total = length people,
      thisMonth = length (filter (\<lambda>p.
         strictEq (month_of (dayjs_strict (birthDate p))) (Some (dj_month today))) people),
      nextMonth = length (filter (\<lambda>p.
         strictEq (month_of (dayjs_strict (birthDate p)))
                  (Some (dj_month (add_month today 1)))) people),
      monthlyStats = map (\<lambda>i.
         \<lparr>month = i + 1,
          count = length (filter (\<lambda>p.
             strictEq (month_of (dayjs_strict (birthDate p))) (Some (int i))) people)\<rparr>)
         [0..<12],
      averagePerMonth = toFixed1 (of_nat (length people) / 12)\<rparr>"

section \<open>The daily job\<close>

text \<open>
  \<open>checkBirthdays\<close> and \<open>sendBirthdayCongratulations\<close> of \<open>bot.service.ts\<close>. The Telegram
  client is a function from a call and the state of the outside world to the outcome
  of the awaited promise and the next state. The text of the congratulation is fixed
  but for the mention and the age; the picture is drawn at random from five fixed
  addresses and is left out of the call. Each function returns the outcome of its own
  promise, the calls it made in order with their outcomes, and the world after them.
  Writing to the log does not fail.
\<close>

record congratulation =
  mention :: string
  age :: "int option"

datatype call = SendPhoto congratulation | SendMessage congratulation

datatype outcome = Resolved | Rejected

definition congratulationsMessage :: "dayjs \<Rightarrow> person \<Rightarrow> congratulation" where
  "congratulationsMessage today person =
     \<lparr>mention = (case telegramUsername person of
                   None \<Rightarrow> name person
                 | Some u \<Rightarrow> if u = [] then name person else CHR ''@'' # u),
      age = getPersonAge person today\<rparr>"

definition sendBirthdayCongratulations ::
  "(call \<Rightarrow> 'w \<Rightarrow> outcome \<times> 'w) \<Rightarrow> dayjs \<Rightarrow> person \<Rightarrow> 'w
     \<Rightarrow> outcome \<times> (call \<times> outcome) list \<times> 'w" where
  "sendBirthdayCongratulations telegram today person w =
     (let msg = congratulationsMessage today person
      in case telegram (SendPhoto msg) w of
           (Resolved, w1) \<Rightarrow> (Resolved, [(SendPhoto msg, Resolved)], w1)
         | (Rejected, w1) \<Rightarrow>
             (case telegram (SendMessage msg) w1 of
                (Resolved, w2) \<Rightarrow>
                  (Resolved, [(SendPhoto msg, Rejected), (SendMessage msg, Resolved)], w2)
              | (Rejected, w2) \<Rightarrow>
                  (Resolved, [(SendPhoto msg, Rejected), (SendMessage msg, Rejected)], w2)))"

fun sendAll ::
  "(call \<Rightarrow> 'w \<Rightarrow> outcome \<times> 'w) \<Rightarrow> dayjs \<Rightarrow> person list \<Rightarrow> 'w
     \<Rightarrow> outcome \<times> (call \<times> outcome) list \<times> 'w" where
  "sendAll telegram today [] w = (Resolved, [], w)"
| "sendAll telegram today (person # rest) w =
     (case sendBirthdayCongratulations telegram today person w of
        (Rejected, calls, w') \<Rightarrow> (Rejected, calls, w')
      | (Resolved, calls, w') \<Rightarrow>
          (case sendAll telegram today rest w' of
             (r, calls', w'') \<Rightarrow> (r, calls @ calls', w'')))"

definition checkBirthdays ::
  "(call \<Rightarrow> 'w \<Rightarrow> outcome \<times> 'w) \<Rightarrow> dayjs \<Rightarrow> person list \<Rightarrow> 'w
     \<Rightarrow> outcome \<times> (call \<times> outcome) list \<times> 'w" where
  "checkBirthdays telegram today people w =
     (let birthdayPeople = getPeopleWithBirthdayToday today people
      in if length birthdayPeople = 0 then (Resolved, [], w)
         else sendAll telegram today birthdayPeople w)"

section \<open>Notions of the specification\<close>

text \<open>
  A username is taken when some person of the roster has a username that is the same
  up to the case of its letters (the test of \<open>this.people.some(...)\<close>, as a predicate
  on the roster).
\<close>

definition handleTaken :: "string \<Rightarrow> person list \<Rightarrow> bool" where
  "handleTaken h people \<longleftrightarrow>
     (\<exists>p\<in>set people. \<exists>v. telegramUsername p = Some v \<and> toLowerCase v = toLowerCase h)"

text \<open>
  The fields of a text of the form DD.MM.YYYY, read at their positions, and what it
  means for such a text to name a real calendar date: a month from 1 to 12 and a day
  from 1 to the length of that month in that year.
\<close>

definition dayField :: "string \<Rightarrow> int" where
  "dayField s = int (toNumber (take 2 s))"

definition monthField :: "string \<Rightarrow> int" where
  "monthField s = int (toNumber (take 2 (drop 3 s)))"

definition yearField :: "string \<Rightarrow> int" where
  "yearField s = int (toNumber (drop 6 s))"

definition realCalendarDate :: "int \<Rightarrow> int \<Rightarrow> int \<Rightarrow> bool" where
  "realCalendarDate d m y \<longleftrightarrow> 1 \<le> m \<and> m \<le> 12 \<and> 1 \<le> d \<and> d \<le> daysInMonth y (m - 1)"

definition denotesCalendarDate :: "string \<Rightarrow> bool" where
  "denotesCalendarDate s \<longleftrightarrow>
     dateRegex_test s \<and> realCalendarDate (dayField s) (monthField s) (yearField s)"


definition bornInMonth :: "int \<Rightarrow> person \<Rightarrow> bool" where
  "bornInMonth m p \<longleftrightarrow>
     denotesCalendarDate (birthDate p) \<and> 100 \<le> yearField (birthDate p) \<and>
     monthField (birthDate p) = m"

text \<open>
  What a run of the daily job owes to a list of persons, read off its calls: for each
  person in order, one picture call with the congratulation of that person, followed,
  exactly when the picture call was rejected, by one text call with the same
  congratulation; and nothing else.
\<close>

fun notified :: "dayjs \<Rightarrow> (call \<times> outcome) list \<Rightarrow> person list \<Rightarrow> bool" where
  "notified today [] [] = True"
| "notified today ((c, Resolved) # calls) (p # ps) =
     (c = SendPhoto (congratulationsMessage today p) \<and> notified today calls ps)"
| "notified today ((c, Rejected) # (c', r) # calls) (p # ps) =
     (c = SendPhoto (congratulationsMessage today p) \<and>
      c' = SendMessage (congratulationsMessage today p) \<and> notified today calls ps)"
| "notified today _ _ = False"

text \<open>
  Making a list of calls one after the other, each on the world the one before left.
\<close>

fun replay ::
  "(call \<Rightarrow> 'w \<Rightarrow> outcome \<times> 'w) \<Rightarrow> call list \<Rightarrow> 'w \<Rightarrow> (call \<times> outcome) list \<times> 'w" where
  "replay telegram [] w = ([], w)"
| "replay telegram (c # cs) w =
     (case telegram c w of
        (r, w') \<Rightarrow> (case replay telegram cs w' of (rs, w'') \<Rightarrow> ((c, r) # rs, w'')))"

text \<open>
  A reference moment as \<open>dayjs()\<close> gives it: a real day of a month of a year and a time
  of that day. A reference moment is not before a birth date when its day is the day
  of birth or a later one. It is before this year's anniversary when its month comes
  before the month of birth, or is that month and its day comes before the day of
  birth, cut down to the length of the month in the year of the reference moment.
\<close>

definition validDayjs :: "dayjs \<Rightarrow> bool" where
  "validDayjs t \<longleftrightarrow>
     0 \<le> dj_month t \<and> dj_month t < 12 \<and> 1 \<le> dj_date t \<and>
     dj_date t \<le> daysInMonth (dj_year t) (dj_month t) \<and> 0 \<le> dj_ms t \<and> dj_ms t < 86400000"

definition notBeforeBirth :: "string \<Rightarrow> dayjs \<Rightarrow> bool" where
  "notBeforeBirth s today \<longleftrightarrow>
     yearField s < dj_year today \<or>
     (yearField s = dj_year today \<and>
      (monthField s - 1 < dj_month today \<or>
       (monthField s - 1 = dj_month today \<and> dayField s \<le> dj_date today)))"

definition beforeAnniversary :: "string \<Rightarrow> dayjs \<Rightarrow> bool" where
  "beforeAnniversary s today \<longleftrightarrow>
     dj_month today < monthField s - 1 \<or>
     (dj_month today = monthField s - 1 \<and>
      dj_date today < min (dayField s) (daysInMonth (dj_year today) (dj_month today)))"

text \<open>Aids for the calendar arithmetic: the day number on which a month starts, and the
  month after and before a month of a year.\<close>

definition monthStart :: "int \<Rightarrow> int \<Rightarrow> int" where
  "monthStart y M = daysBeforeYear y + daysBeforeMonth y M"

definition nextMonthOf :: "int \<times> int \<Rightarrow> int \<times> int" where
  "nextMonthOf ym = (if snd ym = 11 then (fst ym + 1, 0) else (fst ym, snd ym + 1))"

definition prevMonthOf :: "int \<times> int \<Rightarrow> int \<times> int" where
  "prevMonthOf ym = (if snd ym = 0 then (fst ym - 1, 11) else (fst ym, snd ym - 1))"

section \<open>Facts about the strict parse\<close>

lemma nat_less_10_cases: "(n::nat) < 10 \<Longrightarrow> n \<in> {0, 1, 2, 3, 4, 5, 6, 7, 8, 9}"
  by auto

lemma digitVal_digitChar: "n < 10 \<Longrightarrow> digitVal (digitChar n) = n"
  by (drule nat_less_10_cases) (auto simp: digitVal_def digitChar_def digitChars_def)

lemma isDigit_digitChar: "n < 10 \<Longrightarrow> isDigit (digitChar n)"
  by (drule nat_less_10_cases) (auto simp: isDigit_def digitChar_def digitChars_def)

lemma toNumber_snoc: "toNumber (s @ [c]) = 10 * toNumber s + digitVal c"
  by (simp add: toNumber_def)

lemma toNumber_padStart0: "toNumber (padStart0 w n) = n"
proof (induction w n rule: padStart0.induct)
  case (1 w n)
  show ?case
  proof (cases "n < 10 \<and> w \<le> 1")
    case True
    then show ?thesis
      by (subst padStart0.simps) (simp add: toNumber_def digitVal_digitChar)
  next
    case False
    with 1 have "toNumber (padStart0 (w - 1) (n div 10)) = n div 10" by simp
    with False show ?thesis
      by (subst padStart0.simps) (auto simp: toNumber_snoc digitVal_digitChar)
  qed
qed

lemma length_padStart0: "n < 10 ^ w \<Longrightarrow> 1 \<le> w \<Longrightarrow> length (padStart0 w n) = w"
proof (induction w n rule: padStart0.induct)
  case (1 w n)
  show ?case
  proof (cases "n < 10 \<and> w \<le> 1")
    case True
    with 1 show ?thesis by (subst padStart0.simps) simp
  next
    case False
    with "1.prems" have w2: "2 \<le> w" by (cases "w = 1") auto
    then obtain w' where w': "w = Suc w'" "1 \<le> w'" by (cases w) auto
    with "1.prems" have "n div 10 < 10 ^ w'"
      by (simp add: less_mult_imp_div_less mult.commute)
    with "1.IH"[OF False] w' have "length (padStart0 (w - 1) (n div 10)) = w - 1" by simp
    with False w' show ?thesis by (subst padStart0.simps) auto
  qed
qed

lemma length_padStart0_ge: "w \<le> length (padStart0 w n)"
proof (induction w n rule: padStart0.induct)
  case (1 w n)
  show ?case
  proof (cases "n < 10 \<and> w \<le> 1")
    case True
    then show ?thesis by (subst padStart0.simps) simp
  next
    case False
    with 1 have "w - 1 \<le> length (padStart0 (w - 1) (n div 10))" by simp
    with False show ?thesis by (subst padStart0.simps) auto
  qed
qed

lemma length_padStart0_big: "10 ^ k \<le> n \<Longrightarrow> k < length (padStart0 w n)"
proof (induction w n arbitrary: k rule: padStart0.induct)
  case (1 w n)
  show ?case
  proof (cases "n < 10 \<and> w \<le> 1")
    case True
    have "k = 0"
    proof (cases k)
      case 0 then show ?thesis .
    next
      case (Suc k')
      have "(10::nat) \<le> 10 * 10 ^ k'" by simp
      with "1.prems" Suc True show ?thesis by simp
    qed
    with True show ?thesis by (subst padStart0.simps) simp
  next
    case False
    show ?thesis
    proof (cases k)
      case 0
      with False show ?thesis by (subst padStart0.simps) auto
    next
      case (Suc k')
      with "1.prems" have "10 ^ k' \<le> n div 10"
        by (simp add: less_eq_div_iff_mult_less_eq mult.commute)
      with "1.IH"[OF False] have "k' < length (padStart0 (w - 1) (n div 10))" by simp
      with False Suc show ?thesis by (subst padStart0.simps) auto
    qed
  qed
qed

lemma digits_padStart0: "list_all isDigit (padStart0 w n)"
proof (induction w n rule: padStart0.induct)
  case (1 w n)
  show ?case
  proof (cases "n < 10 \<and> w \<le> 1")
    case True
    then show ?thesis by (subst padStart0.simps) (simp add: isDigit_digitChar)
  next
    case False
    with 1 have "list_all isDigit (padStart0 (w - 1) (n div 10))" by simp
    with False show ?thesis by (subst padStart0.simps) (auto simp: isDigit_digitChar)
  qed
qed

lemma daysInMonth_bounds: "28 \<le> daysInMonth y M" "daysInMonth y M \<le> 31"
  by (simp_all add: daysInMonth_def)

lemma rollDays_id:
  "d \<le> daysInMonth y M \<Longrightarrow> rollDays y M d = \<lparr>dj_year = y, dj_month = M, dj_date = d, dj_ms = 0\<rparr>"
  by (subst rollDays.simps) simp

lemma rollDays_props:
  "0 \<le> M \<Longrightarrow> M < 12 \<Longrightarrow> 1 \<le> d \<Longrightarrow>
   1 \<le> dj_date (rollDays y M d) \<and>
   dj_date (rollDays y M d) \<le> daysInMonth (dj_year (rollDays y M d)) (dj_month (rollDays y M d)) \<and>
   0 \<le> dj_month (rollDays y M d) \<and> dj_month (rollDays y M d) < 12 \<and>
   dj_ms (rollDays y M d) = 0 \<and> y \<le> dj_year (rollDays y M d) \<and>
   (daysInMonth y M < d \<longrightarrow> dj_date (rollDays y M d) < d)"
proof (induction y M d rule: rollDays.induct)
  case (1 y M d)
  show ?case
  proof (cases "daysInMonth y M < d")
    case False
    with "1.prems" show ?thesis by (simp add: rollDays_id)
  next
    case True
    note big = this
    have pos: "1 \<le> d - daysInMonth y M" using True by simp
    have less: "d - daysInMonth y M < d" using daysInMonth_bounds(1)[of y M] by simp
    show ?thesis
    proof (cases "M = 11")
      case True
      have eq: "rollDays y M d = rollDays (y + 1) 0 (d - daysInMonth y M)"
        using big True by (subst rollDays.simps) simp
      from "1.IH"(1)[OF big True _ _ pos] have
        "1 \<le> dj_date (rollDays (y + 1) 0 (d - daysInMonth y M)) \<and>
         dj_date (rollDays (y + 1) 0 (d - daysInMonth y M))
           \<le> daysInMonth (dj_year (rollDays (y + 1) 0 (d - daysInMonth y M)))
                (dj_month (rollDays (y + 1) 0 (d - daysInMonth y M))) \<and>
         0 \<le> dj_month (rollDays (y + 1) 0 (d - daysInMonth y M)) \<and>
         dj_month (rollDays (y + 1) 0 (d - daysInMonth y M)) < 12 \<and>
         dj_ms (rollDays (y + 1) 0 (d - daysInMonth y M)) = 0 \<and>
         y + 1 \<le> dj_year (rollDays (y + 1) 0 (d - daysInMonth y M)) \<and>
         (daysInMonth (y + 1) 0 < d - daysInMonth y M \<longrightarrow>
            dj_date (rollDays (y + 1) 0 (d - daysInMonth y M)) < d - daysInMonth y M)"
        by simp
      moreover have "dj_date (rollDays (y + 1) 0 (d - daysInMonth y M)) \<le> d - daysInMonth y M"
        using calculation rollDays_id[of "d - daysInMonth y M" "y + 1" 0]
        by (cases "daysInMonth (y + 1) 0 < d - daysInMonth y M") auto
      ultimately show ?thesis unfolding eq using less by auto
    next
      case False
      have eq: "rollDays y M d = rollDays y (M + 1) (d - daysInMonth y M)"
        using big False by (subst rollDays.simps) simp
      have M': "0 \<le> M + 1" "M + 1 < 12" using "1.prems" False by auto
      from "1.IH"(2)[OF big False M' pos] have
        "1 \<le> dj_date (rollDays y (M + 1) (d - daysInMonth y M)) \<and>
         dj_date (rollDays y (M + 1) (d - daysInMonth y M))
           \<le> daysInMonth (dj_year (rollDays y (M + 1) (d - daysInMonth y M)))
                (dj_month (rollDays y (M + 1) (d - daysInMonth y M))) \<and>
         0 \<le> dj_month (rollDays y (M + 1) (d - daysInMonth y M)) \<and>
         dj_month (rollDays y (M + 1) (d - daysInMonth y M)) < 12 \<and>
         dj_ms (rollDays y (M + 1) (d - daysInMonth y M)) = 0 \<and>
         y \<le> dj_year (rollDays y (M + 1) (d - daysInMonth y M)) \<and>
         (daysInMonth y (M + 1) < d - daysInMonth y M \<longrightarrow>
            dj_date (rollDays y (M + 1) (d - daysInMonth y M)) < d - daysInMonth y M)"
        by simp
      moreover have "dj_date (rollDays y (M + 1) (d - daysInMonth y M)) \<le> d - daysInMonth y M"
        using calculation rollDays_id[of "d - daysInMonth y M" y "M + 1"]
        by (cases "daysInMonth y (M + 1) < d - daysInMonth y M") auto
      ultimately show ?thesis unfolding eq using less by auto
    qed
  qed
qed

lemma list2: "length xs = 2 \<Longrightarrow> \<exists>a b. xs = [a, b]"
  by (cases xs; cases "tl xs") auto

lemma list4: "length xs = 4 \<Longrightarrow> \<exists>a b c d. xs = [a, b, c, d]"
  by (auto simp: length_Suc_conv numeral_eq_Suc)

lemma format_parts:
  assumes "0 \<le> dj_date t" "dj_date t < 100" "0 \<le> dj_month t" "dj_month t < 99"
  shows "take 2 (format_DDMMYYYY t) = padStart0 2 (nat (dj_date t))"
    and "take 2 (drop 3 (format_DDMMYYYY t)) = padStart0 2 (nat (dj_month t + 1))"
    and "drop 6 (format_DDMMYYYY t) = padStart0 4 (nat (dj_year t))"
proof -
  have l1: "length (padStart0 2 (nat (dj_date t))) = 2"
    using assms by (intro length_padStart0) auto
  have l2: "length (padStart0 2 (nat (dj_month t + 1))) = 2"
    using assms by (intro length_padStart0) auto
  show "take 2 (format_DDMMYYYY t) = padStart0 2 (nat (dj_date t))"
    using l1 by (simp add: format_DDMMYYYY_def)
  show "take 2 (drop 3 (format_DDMMYYYY t)) = padStart0 2 (nat (dj_month t + 1))"
    using l1 l2 by (simp add: format_DDMMYYYY_def)
  show "drop 6 (format_DDMMYYYY t) = padStart0 4 (nat (dj_year t))"
    using l1 l2 by (simp add: format_DDMMYYYY_def)
qed

lemma format_fields:
  assumes "0 \<le> dj_date t" "dj_date t < 100" "0 \<le> dj_month t" "dj_month t < 99" "0 \<le> dj_year t"
  shows "int (toNumber (take 2 (format_DDMMYYYY t))) = dj_date t"
    and "int (toNumber (take 2 (drop 3 (format_DDMMYYYY t)))) = dj_month t + 1"
    and "int (toNumber (drop 6 (format_DDMMYYYY t))) = dj_year t"
  using assms by (simp_all add: format_parts toNumber_padStart0)

lemma dateRegex_test_format:
  assumes "0 \<le> dj_date t" "dj_date t < 100" "0 \<le> dj_month t" "dj_month t < 99"
    "0 \<le> dj_year t" "dj_year t < 10000"
  shows "dateRegex_test (format_DDMMYYYY t)"
proof -
  have l1: "length (padStart0 2 (nat (dj_date t))) = 2"
    using assms by (intro length_padStart0) auto
  have l2: "length (padStart0 2 (nat (dj_month t + 1))) = 2"
    using assms by (intro length_padStart0) auto
  have l3: "length (padStart0 4 (nat (dj_year t))) = 4"
    using assms by (intro length_padStart0) auto
  from list2[OF l1] obtain a b where D: "padStart0 2 (nat (dj_date t)) = [a, b]" by blast
  from list2[OF l2] obtain c d where M: "padStart0 2 (nat (dj_month t + 1)) = [c, d]" by blast
  from list4[OF l3] obtain e f g h where Y: "padStart0 4 (nat (dj_year t)) = [e, f, g, h]"
    by blast
  have "isDigit a \<and> isDigit b"
    using digits_padStart0[of 2 "nat (dj_date t)"] unfolding D by simp
  moreover have "isDigit c \<and> isDigit d"
    using digits_padStart0[of 2 "nat (dj_month t + 1)"] unfolding M by simp
  moreover have "isDigit e \<and> isDigit f \<and> isDigit g \<and> isDigit h"
    using digits_padStart0[of 4 "nat (dj_year t)"] unfolding Y by simp
  ultimately show ?thesis
    by (simp add: dateRegex_test_def format_DDMMYYYY_def D M Y)
qed

lemma dayjs_strict_format:
  assumes "realCalendarDate d m y" "100 \<le> y" "y \<le> 9999"
  shows "dayjs_strict (format_DDMMYYYY \<lparr>dj_year = y, dj_month = m - 1, dj_date = d, dj_ms = 0\<rparr>)
         = Some \<lparr>dj_year = y, dj_month = m - 1, dj_date = d, dj_ms = 0\<rparr>"
proof -
  let ?t = "\<lparr>dj_year = y, dj_month = m - 1, dj_date = d, dj_ms = 0\<rparr>"
  from assms(1) have r: "1 \<le> m" "m \<le> 12" "1 \<le> d" "d \<le> daysInMonth y (m - 1)"
    by (simp_all add: realCalendarDate_def)
  from r(4) daysInMonth_bounds(2)[of y "m - 1"] have d31: "d \<le> 31" by simp
  have re: "dateRegex_test (format_DDMMYYYY ?t)"
    using r d31 assms(2,3) by (intro dateRegex_test_format) auto
  have f: "int (toNumber (take 2 (format_DDMMYYYY ?t))) = d"
    "int (toNumber (take 2 (drop 3 (format_DDMMYYYY ?t)))) = m"
    "int (toNumber (drop 6 (format_DDMMYYYY ?t))) = y"
    using format_fields[of ?t] r d31 assms(2) by simp_all
  have md: "(m - 1) div 12 = 0" "(m - 1) mod 12 = m - 1" using r by simp_all
  have js: "js_Date y (m - 1) d = ?t"
    using assms(2) r(4) by (simp add: js_Date_def md rollDays_id)
  have "parseFormattedInput (format_DDMMYYYY ?t) = Some ?t"
    using re r assms(2) by (simp add: parseFormattedInput_def f Let_def js)
  then show ?thesis by (simp add: dayjs_strict_def)
qed

lemma dayjs_strict_Some:
  assumes "dayjs_strict s = Some t"
  shows "denotesCalendarDate s \<and> 100 \<le> int (toNumber (drop 6 s)) \<and> format_DDMMYYYY t = s \<and>
         t = \<lparr>dj_year = int (toNumber (drop 6 s)),
              dj_month = int (toNumber (take 2 (drop 3 s))) - 1,
              dj_date = int (toNumber (take 2 s)), dj_ms = 0\<rparr>"
proof -
  let ?day = "int (toNumber (take 2 s))"
  let ?month = "int (toNumber (take 2 (drop 3 s)))"
  let ?year = "int (toNumber (drop 6 s))"
  from assms have p: "parseFormattedInput s = Some t" and fmt: "format_DDMMYYYY t = s"
    by (auto simp: dayjs_strict_def split: option.splits if_splits)
  from p have re: "dateRegex_test s" and nz: "?day \<noteq> 0" "?month \<noteq> 0" "?year \<noteq> 0"
    and t: "t = js_Date ?year (?month - 1) ?day"
    by (auto simp: parseFormattedInput_def Let_def split: if_splits)
  let ?fy = "if 0 \<le> ?year \<and> ?year \<le> 99 then 1900 + ?year else ?year"
  let ?y0 = "?fy + (?month - 1) div 12"
  let ?M0 = "(?month - 1) mod 12"
  have t': "t = rollDays ?y0 ?M0 ?day" using t by (simp add: js_Date_def Let_def)
  have day1: "1 \<le> ?day" using nz by simp
  have month1: "1 \<le> ?month" using nz by simp
  have M0: "0 \<le> ?M0" "?M0 < 12" by simp_all
  note props = rollDays_props[OF M0 day1, of ?y0, folded t']
  have y0: "0 \<le> ?y0" using month1 by (simp add: pos_imp_zdiv_nonneg_iff)
  have rng: "0 \<le> dj_date t" "dj_date t < 100" "0 \<le> dj_month t" "dj_month t < 99" "0 \<le> dj_year t"
    using props daysInMonth_bounds(2)[of "dj_year t" "dj_month t"] y0 by auto
  have day: "?day = dj_date t" and month: "?month = dj_month t + 1" and year: "?year = dj_year t"
    using format_fields[OF rng] unfolding fmt by simp_all
  have m12: "?month \<le> 12" using month props by simp
  then have md: "(?month - 1) div 12 = 0" "?M0 = ?month - 1" using month1 by simp_all
  have noroll: "?day \<le> daysInMonth ?y0 ?M0"
  proof (rule ccontr)
    assume "\<not> ?day \<le> daysInMonth ?y0 ?M0"
    with props have "dj_date t < ?day" by simp
    with day show False by simp
  qed
  have teq: "t = \<lparr>dj_year = ?y0, dj_month = ?M0, dj_date = ?day, dj_ms = 0\<rparr>"
    using t' rollDays_id[OF noroll] by simp
  then have "dj_year t = ?y0" by simp
  with year md(1) have fy: "?fy = ?year" by simp
  then have y100: "100 \<le> ?year" by (auto split: if_splits)
  have real: "realCalendarDate ?day ?month ?year"
    using day1 month1 m12 noroll md fy by (simp add: realCalendarDate_def)
  have "t = \<lparr>dj_year = ?year, dj_month = ?month - 1, dj_date = ?day, dj_ms = 0\<rparr>"
    using teq md fy by simp
  with re real y100 fmt show ?thesis
    by (simp add: denotesCalendarDate_def dayField_def monthField_def yearField_def)
qed

lemma isDigit_cases:
  "isDigit c \<Longrightarrow> c = CHR ''0'' \<or> c = CHR ''1'' \<or> c = CHR ''2'' \<or> c = CHR ''3'' \<or> c = CHR ''4''
     \<or> c = CHR ''5'' \<or> c = CHR ''6'' \<or> c = CHR ''7'' \<or> c = CHR ''8'' \<or> c = CHR ''9''"
  by (auto simp: isDigit_def digitChars_def)

lemma digitVal_less: "isDigit c \<Longrightarrow> digitVal c < 10"
  by (drule isDigit_cases) (auto simp: digitVal_def)

lemma digitChar_digitVal: "isDigit c \<Longrightarrow> digitChar (digitVal c) = c"
  by (drule isDigit_cases) (auto simp: digitVal_def digitChar_def digitChars_def)

lemma padStart0_step:
  "\<not> (n < 10 \<and> w \<le> 1) \<Longrightarrow> padStart0 w n = padStart0 (w - 1) (n div 10) @ [digitChar (n mod 10)]"
  by (subst padStart0.simps) auto

lemma padStart0_base: "n < 10 \<Longrightarrow> w \<le> 1 \<Longrightarrow> padStart0 w n = [digitChar n]"
  by (subst padStart0.simps) auto

lemma padStart0_toNumber:
  "list_all isDigit ds \<Longrightarrow> ds \<noteq> [] \<Longrightarrow> padStart0 (length ds) (toNumber ds) = ds"
proof (induction ds rule: rev_induct)
  case Nil
  then show ?case by simp
next
  case (snoc c ds)
  then have c: "isDigit c" by simp
  have v: "digitVal c < 10" by (rule digitVal_less[OF c])
  have dm: "(10 * toNumber ds + digitVal c) div 10 = toNumber ds"
    "(10 * toNumber ds + digitVal c) mod 10 = digitVal c"
    using v by simp_all
  show ?case
  proof (cases "ds = []")
    case True
    then show ?thesis
      using v by (simp add: toNumber_def padStart0_base digitChar_digitVal[OF c])
  next
    case False
    with snoc have ih: "padStart0 (length ds) (toNumber ds) = ds" by simp
    from False have "\<not> (toNumber (ds @ [c]) < 10 \<and> length (ds @ [c]) \<le> 1)"
      by (cases ds) auto
    from padStart0_step[OF this] show ?thesis
      using v by (simp add: toNumber_snoc dm ih digitChar_digitVal[OF c])
  qed
qed

lemma padStart0_toNumber_len:
  "list_all isDigit ds \<Longrightarrow> length ds = w \<Longrightarrow> 1 \<le> w \<Longrightarrow> padStart0 w (toNumber ds) = ds"
  using padStart0_toNumber[of ds] by (cases ds) auto

lemma regex_parts:
  assumes "dateRegex_test s"
  shows "s = take 2 s @ ''.'' @ take 2 (drop 3 s) @ ''.'' @ drop 6 s"
    and "length (take 2 s) = 2" and "length (take 2 (drop 3 s)) = 2" and "length (drop 6 s) = 4"
    and "list_all isDigit (take 2 s)" and "list_all isDigit (take 2 (drop 3 s))"
    and "list_all isDigit (drop 6 s)"
proof -
  from assms have len: "length s = 10" by (simp add: dateRegex_test_def)
  then obtain a b p c d q e f g h where s: "s = [a, b, p, c, d, q, e, f, g, h]"
    by (auto simp: length_Suc_conv numeral_eq_Suc)
  from assms show "s = take 2 s @ ''.'' @ take 2 (drop 3 s) @ ''.'' @ drop 6 s"
    unfolding s by (simp add: dateRegex_test_def)
  show "length (take 2 s) = 2" "length (take 2 (drop 3 s)) = 2" "length (drop 6 s) = 4"
    unfolding s by simp_all
  from assms show "list_all isDigit (take 2 s)" "list_all isDigit (take 2 (drop 3 s))"
    "list_all isDigit (drop 6 s)"
    unfolding s by (simp_all add: dateRegex_test_def)
qed

lemma regex_format:
  assumes "dateRegex_test s"
  shows "format_DDMMYYYY \<lparr>dj_year = yearField s, dj_month = monthField s - 1,
            dj_date = dayField s, dj_ms = 0\<rparr> = s"
proof -
  note p = regex_parts[OF assms]
  have "padStart0 2 (toNumber (take 2 s)) = take 2 s"
    by (rule padStart0_toNumber_len[OF p(5) p(2)]) simp
  moreover have "padStart0 2 (toNumber (take 2 (drop 3 s))) = take 2 (drop 3 s)"
    by (rule padStart0_toNumber_len[OF p(6) p(3)]) simp
  moreover have "padStart0 4 (toNumber (drop 6 s)) = drop 6 s"
    by (rule padStart0_toNumber_len[OF p(7) p(4)]) simp
  ultimately have "format_DDMMYYYY \<lparr>dj_year = yearField s, dj_month = monthField s - 1,
            dj_date = dayField s, dj_ms = 0\<rparr>
        = take 2 s @ ''.'' @ take 2 (drop 3 s) @ ''.'' @ drop 6 s"
    by (simp add: format_DDMMYYYY_def yearField_def monthField_def dayField_def)
  with p(1) show ?thesis by simp
qed

lemma yearField_less: "dateRegex_test s \<Longrightarrow> yearField s \<le> 9999"
proof -
  assume re: "dateRegex_test s"
  note p = regex_parts[OF re]
  have "padStart0 4 (toNumber (drop 6 s)) = drop 6 s"
    by (rule padStart0_toNumber_len[OF p(7) p(4)]) simp
  then have l: "length (padStart0 4 (toNumber (drop 6 s))) = 4" using p(4) by simp
  have "toNumber (drop 6 s) < 10 ^ 4"
  proof (rule ccontr)
    assume "\<not> toNumber (drop 6 s) < 10 ^ 4"
    then have "4 < length (padStart0 4 (toNumber (drop 6 s)))"
      by (intro length_padStart0_big) simp
    with l show False by simp
  qed
  then show ?thesis by (simp add: yearField_def)
qed

lemma dayjs_strict_iff:
  "dayjs_strict s = Some t \<longleftrightarrow>
     denotesCalendarDate s \<and> 100 \<le> yearField s \<and>
     t = \<lparr>dj_year = yearField s, dj_month = monthField s - 1, dj_date = dayField s, dj_ms = 0\<rparr>"
proof
  assume "dayjs_strict s = Some t"
  from dayjs_strict_Some[OF this] show "denotesCalendarDate s \<and> 100 \<le> yearField s \<and>
     t = \<lparr>dj_year = yearField s, dj_month = monthField s - 1, dj_date = dayField s, dj_ms = 0\<rparr>"
    by (simp add: yearField_def monthField_def dayField_def)
next
  assume a: "denotesCalendarDate s \<and> 100 \<le> yearField s \<and>
     t = \<lparr>dj_year = yearField s, dj_month = monthField s - 1, dj_date = dayField s, dj_ms = 0\<rparr>"
  then have re: "dateRegex_test s"
    and real: "realCalendarDate (dayField s) (monthField s) (yearField s)"
    by (simp_all add: denotesCalendarDate_def)
  from dayjs_strict_format[OF real _ yearField_less[OF re]] a
  show "dayjs_strict s = Some t" by (simp add: regex_format[OF re])
qed

lemma dayjs_strict_None_iff:
  "dayjs_strict s = None \<longleftrightarrow> \<not> (denotesCalendarDate s \<and> 100 \<le> yearField s)"
  using dayjs_strict_iff[of s] by (cases "dayjs_strict s") auto

text \<open>Rewrite sets that evaluate the date checks and the validated add on given texts.\<close>

lemmas date_eval =
  denotesCalendarDate_def dateRegex_test_def isDigit_def digitChars_def dayField_def
  monthField_def yearField_def toNumber_def digitVal_def realCalendarDate_def daysInMonth_def
  isLeapYear_def

lemmas validated_eval =
  addPersonFromTelegramWithValidation_def dayjs_strict_None_iff date_eval trim_def
  isWhiteSpace_def toLowerCase_def toLowerChar_def char_of_def bit_0 addPerson_def Let_def

section \<open>Facts about the Store\<close>

lemma fold_max_ge: "x \<in> set (a # xs) \<Longrightarrow> x \<le> fold max xs (a::int)"
proof -
  assume "x \<in> set (a # xs)"
  then have "x \<le> Max (set (a # xs))" by (intro Max_ge) auto
  then show ?thesis by (simp only: Max.set_eq_fold)
qed

lemma addPerson_snd: "snd (addPerson c people) = people @ [fst (addPerson c people)]"
  by (simp add: addPerson_def Let_def)

lemma addPerson_fields:
  "name (fst (addPerson c people)) = name c"
  "birthDate (fst (addPerson c people)) = birthDate c"
  "telegramUsername (fst (addPerson c people)) = telegramUsername c"
  by (simp_all add: addPerson_def Let_def)

lemma addPerson_id:
  "id' (fst (addPerson c people)) = (if people = [] then 1 else Max (id' ` set people) + 1)"
proof (cases people)
  case Nil
  then show ?thesis by (simp add: addPerson_def Let_def)
next
  case (Cons p ps)
  have "fold max (map id' ps) (id' p) = Max (set (id' p # map id' ps))"
    by (simp only: Max.set_eq_fold)
  with Cons show ?thesis by (simp add: addPerson_def Let_def)
qed

lemma new_id_fresh:
  "q \<in> set people \<Longrightarrow> id' q < id' (fst (addPerson c people))"
  using fold_max_ge[of "id' q" "hd (map id' people)" "tl (map id' people)"]
  by (cases people) (auto simp: addPerson_def Let_def)

lemma new_id_neq:
  "q \<in> set people \<Longrightarrow> id' q \<noteq> id' (fst (addPerson c people))"
  using new_id_fresh[of q people c] by simp

lemma find_snoc_fresh:
  "\<forall>x\<in>set xs. \<not> P x \<Longrightarrow> P p \<Longrightarrow> find P (xs @ [p]) = Some p"
  by (induction xs) auto

lemma findIndex_snoc_fresh:
  "\<forall>x\<in>set xs. \<not> P x \<Longrightarrow> P p \<Longrightarrow> findIndex P (xs @ [p]) = Some (length xs)"
  by (induction xs) auto

lemma findIndex_None_iff: "findIndex P xs = None \<longleftrightarrow> (\<forall>x\<in>set xs. \<not> P x)"
  by (induction xs) auto

lemma find_None_iff_set: "find P xs = None \<longleftrightarrow> (\<forall>x\<in>set xs. \<not> P x)"
  by (induction xs) auto

lemma findIndex_less: "findIndex P xs = Some k \<Longrightarrow> k < length xs"
  by (induction xs arbitrary: k) (auto split: if_splits)

lemma getPersonById_added:
  "getPersonById (id' (fst (addPerson c people))) (snd (addPerson c people))
     = Some (fst (addPerson c people))"
  unfolding getPersonById_def addPerson_snd
  by (rule find_snoc_fresh) (simp_all add: new_id_neq)

lemma removePerson_added:
  "removePerson (id' (fst (addPerson c people))) (snd (addPerson c people)) = (True, people)"
proof -
  have "findIndex (\<lambda>person. id' person = id' (fst (addPerson c people)))
          (people @ [fst (addPerson c people)]) = Some (length people)"
    by (rule findIndex_snoc_fresh) (simp_all add: new_id_neq)
  then show ?thesis
    by (simp add: removePerson_def addPerson_snd splice1_def)
qed

lemma getPersonById_fresh_None:
  "getPersonById (id' (fst (addPerson c people))) people = None"
  unfolding getPersonById_def find_None_iff_set
  by (simp add: new_id_neq)

lemma removePerson_fst: "fst (removePerson i people) \<longleftrightarrow> getPersonById i people \<noteq> None"
proof -
  have "findIndex (\<lambda>person. id' person = i) people = None \<longleftrightarrow> getPersonById i people = None"
    by (simp add: findIndex_None_iff getPersonById_def find_None_iff_set)
  then show ?thesis
    by (cases "findIndex (\<lambda>person. id' person = i) people") (auto simp: removePerson_def)
qed

lemma removePerson_length:
  "length (snd (removePerson i people)) =
     (if fst (removePerson i people) then length people - 1 else length people)"
  by (auto simp: removePerson_def splice1_def dest!: findIndex_less split: option.splits)

lemma removePerson_unchanged:
  "\<not> fst (removePerson i people) \<Longrightarrow> snd (removePerson i people) = people"
  by (auto simp: removePerson_def split: option.splits)

lemma distinct_splice1: "distinct (map f xs) \<Longrightarrow> distinct (map f (splice1 k xs))"
proof (cases "k < length xs")
  case True
  assume d: "distinct (map f xs)"
  have "xs = take k xs @ xs ! k # drop (Suc k) xs"
    using True by (simp add: id_take_nth_drop)
  then have "map f xs = map f (take k xs) @ f (xs ! k) # map f (drop (Suc k) xs)"
    by (metis list.simps(9) map_append)
  with d have "distinct (map f (take k xs) @ f (xs ! k) # map f (drop (Suc k) xs))" by simp
  then show ?thesis by (simp add: splice1_def)
next
  case False
  assume "distinct (map f xs)"
  with False show ?thesis by (simp add: splice1_def)
qed

lemma distinct_addPerson:
  "distinct (map id' people) \<Longrightarrow> distinct (map id' (snd (addPerson c people)))"
proof -
  assume d: "distinct (map id' people)"
  have "\<forall>q\<in>set people. id' q \<noteq> id' (fst (addPerson c people))"
    by (simp add: new_id_neq)
  with d show ?thesis by (auto simp: addPerson_snd)
qed

lemma distinct_removePerson:
  "distinct (map id' people) \<Longrightarrow> distinct (map id' (snd (removePerson i people)))"
  by (auto simp: removePerson_def distinct_splice1 split: option.splits)

lemma validated_snd:
  "snd (addPersonFromTelegramWithValidation n b u people) = people \<or>
   (\<exists>c. snd (addPersonFromTelegramWithValidation n b u people) = snd (addPerson c people))"
  by (auto simp: addPersonFromTelegramWithValidation_def Let_def case_prod_beta
           split: option.splits)

lemma validated_Inr:
  assumes "addPersonFromTelegramWithValidation n b u people = (Inr p, people')"
  shows "\<exists>h. u = Some h \<and>
           (p, people') = addPerson \<lparr>name = n, birthDate = b,
              telegramUsername = Some (trim (replace_first (CHR ''@'') h))\<rparr> people"
  using assms
  by (auto simp: addPersonFromTelegramWithValidation_def Let_def case_prod_beta
           split: option.splits if_splits)

lemma distinct_apply_operation:
  "distinct (map id' people) \<Longrightarrow> distinct (map id' (apply_operation operation people))"
proof (cases operation)
  case (Add c)
  assume "distinct (map id' people)"
  with Add show ?thesis by (simp add: distinct_addPerson)
next
  case (AddValidated n b u)
  assume "distinct (map id' people)"
  with AddValidated validated_snd[of n b u people] show ?thesis
    by (auto simp: distinct_addPerson)
next
  case (Remove i)
  assume "distinct (map id' people)"
  with Remove show ?thesis by (simp add: distinct_removePerson)
qed

lemma distinct_run_operations:
  "distinct (map id' people) \<Longrightarrow> distinct (map id' (run_operations ops people))"
  unfolding run_operations_def
  by (induction ops arbitrary: people) (auto simp: distinct_apply_operation)

text \<open>
  Claim C9. For every roster and every candidate, \<open>addPerson\<close> followed by \<open>getPersonById\<close>
  on the id of the returned person gives that person back, with the name, the birth
  date and the username of the candidate; \<open>removePerson\<close> on that id returns \<open>true\<close>, and
  \<open>getPersonById\<close> then finds nothing. The same holds after a successful
  \<open>addPersonFromTelegramWithValidation\<close>, whose stored username is the cleaned one. For
  every id, \<open>removePerson\<close> returns \<open>true\<close> exactly when a person with that id was present,
  which is exactly when the array changed.
\<close>

theorem add_getById_removeById:
  "(let p = fst (addPerson c people); people' = snd (addPerson c people)
    in getPersonById (id' p) people' = Some p \<and>
       name p = name c \<and> birthDate p = birthDate c \<and>
       telegramUsername p = telegramUsername c \<and>
       fst (removePerson (id' p) people') \<and>
       getPersonById (id' p) (snd (removePerson (id' p) people')) = None) \<and>
   (addPersonFromTelegramWithValidation n b u people = (Inr q, people2) \<longrightarrow>
       getPersonById (id' q) people2 = Some q \<and>
       name q = n \<and> birthDate q = b \<and>
       telegramUsername q = map_option (\<lambda>h. trim (replace_first (CHR ''@'') h)) u \<and>
       fst (removePerson (id' q) people2) \<and>
       getPersonById (id' q) (snd (removePerson (id' q) people2)) = None) \<and>
   (fst (removePerson i people) \<longleftrightarrow> getPersonById i people \<noteq> None) \<and>
   (fst (removePerson i people) \<longleftrightarrow> snd (removePerson i people) \<noteq> people)"
proof -
  have raw: "getPersonById (id' (fst (addPerson c' people))) (snd (addPerson c' people))
               = Some (fst (addPerson c' people)) \<and>
             fst (removePerson (id' (fst (addPerson c' people))) (snd (addPerson c' people))) \<and>
             getPersonById (id' (fst (addPerson c' people)))
               (snd (removePerson (id' (fst (addPerson c' people)))
                  (snd (addPerson c' people)))) = None"
    for c'
    by (simp add: getPersonById_added removePerson_added getPersonById_fresh_None)
  have first: "let p = fst (addPerson c people); people' = snd (addPerson c people)
    in getPersonById (id' p) people' = Some p \<and>
       name p = name c \<and> birthDate p = birthDate c \<and>
       telegramUsername p = telegramUsername c \<and>
       fst (removePerson (id' p) people') \<and>
       getPersonById (id' p) (snd (removePerson (id' p) people')) = None"
    using raw[of c] by (simp add: Let_def addPerson_fields)
  have second: "getPersonById (id' q) people2 = Some q \<and>
       name q = n \<and> birthDate q = b \<and>
       telegramUsername q = map_option (\<lambda>h. trim (replace_first (CHR ''@'') h)) u \<and>
       fst (removePerson (id' q) people2) \<and>
       getPersonById (id' q) (snd (removePerson (id' q) people2)) = None"
    if ok: "addPersonFromTelegramWithValidation n b u people = (Inr q, people2)"
  proof -
    from validated_Inr[OF ok] obtain h where u: "u = Some h"
      and eq: "(q, people2) = addPerson \<lparr>name = n, birthDate = b,
              telegramUsername = Some (trim (replace_first (CHR ''@'') h))\<rparr> people"
      by blast
    let ?c = "\<lparr>name = n, birthDate = b,
              telegramUsername = Some (trim (replace_first (CHR ''@'') h))\<rparr>"
    from eq have q: "q = fst (addPerson ?c people)" and p2: "people2 = snd (addPerson ?c people)"
      by (metis fst_conv, metis snd_conv)
    show ?thesis
      unfolding q p2 using raw[of ?c] u by (simp add: addPerson_fields)
  qed
  have third: "fst (removePerson i people) \<longleftrightarrow> getPersonById i people \<noteq> None"
    by (rule removePerson_fst)
  have fourth: "fst (removePerson i people) \<longleftrightarrow> snd (removePerson i people) \<noteq> people"
  proof
    assume r: "fst (removePerson i people)"
    then have "people \<noteq> []"
      by (auto simp: removePerson_def)
    with r have "length (snd (removePerson i people)) < length people"
      by (simp add: removePerson_length)
    then show "snd (removePerson i people) \<noteq> people" by auto
  next
    assume "snd (removePerson i people) \<noteq> people"
    then show "fst (removePerson i people)"
      using removePerson_unchanged by blast
  qed
  from first second third fourth show ?thesis by blast
qed

text \<open>
  An instance: on a roster holding id 1, the validated add of \<open>@bob\<close> stores the person
  with id 2, who is found by that id and is gone after the removal.
\<close>

theorem add_getById_removeById_witness:
  "addPersonFromTelegramWithValidation ''bob'' ''16.06.1992'' (Some ''@bob'')
     [\<lparr>name = ''ann'', birthDate = ''15.06.1990'', telegramUsername = Some ''ann'', id' = 1\<rparr>]
   = (Inr \<lparr>name = ''bob'', birthDate = ''16.06.1992'', telegramUsername = Some ''bob'', id' = 2\<rparr>,
      [\<lparr>name = ''ann'', birthDate = ''15.06.1990'', telegramUsername = Some ''ann'', id' = 1\<rparr>,
       \<lparr>name = ''bob'', birthDate = ''16.06.1992'', telegramUsername = Some ''bob'', id' = 2\<rparr>]) \<and>
   getPersonById 2
      [\<lparr>name = ''ann'', birthDate = ''15.06.1990'', telegramUsername = Some ''ann'', id' = 1\<rparr>,
       \<lparr>name = ''bob'', birthDate = ''16.06.1992'', telegramUsername = Some ''bob'', id' = 2\<rparr>]
   = Some \<lparr>name = ''bob'', birthDate = ''16.06.1992'', telegramUsername = Some ''bob'', id' = 2\<rparr> \<and>
   getPersonById 2 (snd (removePerson 2
      [\<lparr>name = ''ann'', birthDate = ''15.06.1990'', telegramUsername = Some ''ann'', id' = 1\<rparr>,
       \<lparr>name = ''bob'', birthDate = ''16.06.1992'', telegramUsername = Some ''bob'', id' = 2\<rparr>]))
   = None"
proof -
  let ?ann = "\<lparr>name = ''ann'', birthDate = ''15.06.1990'', telegramUsername = Some ''ann'',
               id' = 1\<rparr>"
  let ?bob = "\<lparr>name = ''bob'', birthDate = ''16.06.1992'', telegramUsername = Some ''bob'',
               id' = 2\<rparr>"
  have h: "addPersonFromTelegramWithValidation ''bob'' ''16.06.1992'' (Some ''@bob'') [?ann]
           = (Inr ?bob, [?ann, ?bob])"
    by (simp add: validated_eval)
  from add_getById_removeById[of "\<lparr>name = ''eve'', birthDate = ''01.01.2000'',
      telegramUsername = None\<rparr>" "[?ann]" "''bob''" "''16.06.1992''" "Some ''@bob''"
      ?bob "[?ann, ?bob]" 2] h
  show ?thesis by simp
qed

text \<open>
  Claim C3, as the code has it. The id that \<open>addPerson\<close> assigns is the greatest id of the
  roster plus one, or 1 on an empty roster; it is greater than every id in the roster at
  that moment, so it is new there, and the same holds for a successful validated add,
  which appends the person. Over every sequence of add and remove operations, a roster
  whose ids are pairwise distinct keeps pairwise distinct ids. (The id of a removed
  person is not kept aside: see the next fact.)
\<close>

theorem assigned_id_max_plus_one:
  "id' (fst (addPerson c people)) = (if people = [] then 1 else Max (id' ` set people) + 1) \<and>
   (\<forall>q\<in>set people. id' q < id' (fst (addPerson c people))) \<and>
   (addPersonFromTelegramWithValidation n b u people = (Inr p, people') \<longrightarrow>
      id' p = (if people = [] then 1 else Max (id' ` set people) + 1) \<and>
      (\<forall>q\<in>set people. id' q < id' p) \<and> people' = people @ [p]) \<and>
   (distinct (map id' people) \<longrightarrow> distinct (map id' (run_operations ops people)))"
proof -
  have validated: "id' p = (if people = [] then 1 else Max (id' ` set people) + 1) \<and>
      (\<forall>q\<in>set people. id' q < id' p) \<and> people' = people @ [p]"
    if ok: "addPersonFromTelegramWithValidation n b u people = (Inr p, people')"
  proof -
    from validated_Inr[OF ok] obtain c' where eq: "(p, people') = addPerson c' people"
      by blast
    then have p: "p = fst (addPerson c' people)" and p': "people' = snd (addPerson c' people)"
      by (metis fst_conv, metis snd_conv)
    show ?thesis
      unfolding p p' using addPerson_id[of c' people] new_id_fresh[of _ people c']
      by (simp add: addPerson_snd)
  qed
  show ?thesis
    using validated addPerson_id[of c people] new_id_fresh[of _ people c]
      distinct_run_operations[of people ops]
    by blast
qed

text \<open>
  An instance: on a roster holding id 4 the validated add assigns id 5, and the ids stay
  distinct over an add, a removal and another add.
\<close>

theorem assigned_id_max_plus_one_witness:
  "addPersonFromTelegramWithValidation ''bob'' ''16.06.1992'' (Some ''@bob'')
     [\<lparr>name = ''ann'', birthDate = ''15.06.1990'', telegramUsername = Some ''ann'', id' = 4\<rparr>]
   = (Inr \<lparr>name = ''bob'', birthDate = ''16.06.1992'', telegramUsername = Some ''bob'', id' = 5\<rparr>,
      [\<lparr>name = ''ann'', birthDate = ''15.06.1990'', telegramUsername = Some ''ann'', id' = 4\<rparr>,
       \<lparr>name = ''bob'', birthDate = ''16.06.1992'', telegramUsername = Some ''bob'', id' = 5\<rparr>]) \<and>
   distinct (map id'
     [\<lparr>name = ''ann'', birthDate = ''15.06.1990'', telegramUsername = Some ''ann'', id' = 4\<rparr>]) \<and>
   distinct (map id' (run_operations
     [AddValidated ''bob'' ''16.06.1992'' (Some ''@bob''), Remove 4,
      Add \<lparr>name = ''eve'', birthDate = ''01.01.2000'', telegramUsername = None\<rparr>]
     [\<lparr>name = ''ann'', birthDate = ''15.06.1990'', telegramUsername = Some ''ann'', id' = 4\<rparr>]))"
proof -
  let ?ann = "\<lparr>name = ''ann'', birthDate = ''15.06.1990'', telegramUsername = Some ''ann'',
               id' = 4\<rparr>"
  let ?bob = "\<lparr>name = ''bob'', birthDate = ''16.06.1992'', telegramUsername = Some ''bob'',
               id' = 5\<rparr>"
  have h: "addPersonFromTelegramWithValidation ''bob'' ''16.06.1992'' (Some ''@bob'') [?ann]
           = (Inr ?bob, [?ann, ?bob])"
    by (simp add: validated_eval)
  have d: "distinct (map id' [?ann])" by simp
  from assigned_id_max_plus_one[of "\<lparr>name = ''eve'', birthDate = ''01.01.2000'',
      telegramUsername = None\<rparr>" "[?ann]" "''bob''" "''16.06.1992''" "Some ''@bob''"
      ?bob "[?ann, ?bob]"
      "[AddValidated ''bob'' ''16.06.1992'' (Some ''@bob''), Remove 4,
        Add \<lparr>name = ''eve'', birthDate = ''01.01.2000'', telegramUsername = None\<rparr>]"] h d
  show ?thesis by simp
qed

text \<open>
  Counterexample to C3 as stated: on a roster holding id 1, a person is added with id 2
  and removed again; the next person added gets the id 2 once more.
\<close>

theorem removed_id_assigned_again:
  "addPersonFromTelegramWithValidation ''bob'' ''16.06.1992'' (Some ''@bob'')
     [\<lparr>name = ''ann'', birthDate = ''15.06.1990'', telegramUsername = Some ''ann'', id' = 1\<rparr>]
   = (Inr \<lparr>name = ''bob'', birthDate = ''16.06.1992'', telegramUsername = Some ''bob'', id' = 2\<rparr>,
      [\<lparr>name = ''ann'', birthDate = ''15.06.1990'', telegramUsername = Some ''ann'', id' = 1\<rparr>,
       \<lparr>name = ''bob'', birthDate = ''16.06.1992'', telegramUsername = Some ''bob'', id' = 2\<rparr>]) \<and>
   removePerson 2
      [\<lparr>name = ''ann'', birthDate = ''15.06.1990'', telegramUsername = Some ''ann'', id' = 1\<rparr>,
       \<lparr>name = ''bob'', birthDate = ''16.06.1992'', telegramUsername = Some ''bob'', id' = 2\<rparr>]
   = (True,
      [\<lparr>name = ''ann'', birthDate = ''15.06.1990'', telegramUsername = Some ''ann'', id' = 1\<rparr>]) \<and>
   addPersonFromTelegramWithValidation ''eve'' ''01.01.2000'' (Some ''@eve'')
     [\<lparr>name = ''ann'', birthDate = ''15.06.1990'', telegramUsername = Some ''ann'', id' = 1\<rparr>]
   = (Inr \<lparr>name = ''eve'', birthDate = ''01.01.2000'', telegramUsername = Some ''eve'', id' = 2\<rparr>,
      [\<lparr>name = ''ann'', birthDate = ''15.06.1990'', telegramUsername = Some ''ann'', id' = 1\<rparr>,
       \<lparr>name = ''eve'', birthDate = ''01.01.2000'', telegramUsername = Some ''eve'', id' = 2\<rparr>])"
  by (simp add: validated_eval removePerson_def splice1_def)

section \<open>Facts about the validated add\<close>

lemma validated_no_username:
  assumes "case u of None \<Rightarrow> True | Some h \<Rightarrow> trim (replace_first (CHR ''@'') h) = []"
  shows "addPersonFromTelegramWithValidation n b u people =
           (Inl (if \<not> dateRegex_test b then InvalidDateFormat
                 else if dayjs_strict b = None then IncorrectDate
                 else if u = None \<or> u = Some [] then UsernameRequired
                 else UsernameEmpty), people)"
  using assms
  by (auto simp: addPersonFromTelegramWithValidation_def Let_def split: option.splits)

text \<open>
  Claim C10, as the code has it. When the username argument is absent, or is empty
  once its first \<open>@\<close> is removed and it is trimmed (the empty string included), the
  validated add throws and the roster is unchanged; with a birth date that passes the
  date checks the error is the one about the username. Hence every person returned by
  the validated add carries a username, the cleaned argument, and it is not empty.
\<close>

theorem no_username_rejected:
  "((case u of None \<Rightarrow> True | Some h \<Rightarrow> trim (replace_first (CHR ''@'') h) = []) \<longrightarrow>
      snd (addPersonFromTelegramWithValidation n b u people) = people \<and>
      (\<exists>e. fst (addPersonFromTelegramWithValidation n b u people) = Inl e) \<and>
      (dateRegex_test b \<and> dayjs_strict b \<noteq> None \<longrightarrow>
         fst (addPersonFromTelegramWithValidation n b u people) =
           Inl (if u = None \<or> u = Some [] then UsernameRequired else UsernameEmpty))) \<and>
   (\<forall>p. fst (addPersonFromTelegramWithValidation n b u people) = Inr p \<longrightarrow>
      (\<exists>h. u = Some h \<and> trim (replace_first (CHR ''@'') h) \<noteq> [] \<and>
           telegramUsername p = Some (trim (replace_first (CHR ''@'') h))))"
proof (intro conjI allI impI)
  fix p
  assume ok: "fst (addPersonFromTelegramWithValidation n b u people) = Inr p"
  then have "addPersonFromTelegramWithValidation n b u people =
      (Inr p, snd (addPersonFromTelegramWithValidation n b u people))"
    by (simp add: prod_eq_iff)
  from validated_Inr[OF this] obtain h where u: "u = Some h"
    and eq: "(p, snd (addPersonFromTelegramWithValidation n b u people)) =
       addPerson \<lparr>name = n, birthDate = b,
              telegramUsername = Some (trim (replace_first (CHR ''@'') h))\<rparr> people"
    by blast
  from eq have "p = fst (addPerson \<lparr>name = n, birthDate = b,
              telegramUsername = Some (trim (replace_first (CHR ''@'') h))\<rparr> people)"
    by (metis fst_conv)
  then have t: "telegramUsername p = Some (trim (replace_first (CHR ''@'') h))"
    by (simp add: addPerson_fields)
  have "trim (replace_first (CHR ''@'') h) \<noteq> []"
  proof
    assume "trim (replace_first (CHR ''@'') h) = []"
    then have "case u of None \<Rightarrow> True | Some h \<Rightarrow> trim (replace_first (CHR ''@'') h) = []"
      using u by simp
    from validated_no_username[OF this, of n b people] ok show False by simp
  qed
  with u t show "\<exists>h. u = Some h \<and> trim (replace_first (CHR ''@'') h) \<noteq> [] \<and>
           telegramUsername p = Some (trim (replace_first (CHR ''@'') h))"
    by simp
qed (auto simp: validated_no_username)

text \<open>
  Instances: the username \<open>@\<close> followed by two blanks is empty once cleaned, and the add
  throws the error of the empty username on a valid date; the username \<open>@bob\<close> is stored
  as \<open>bob\<close>.
\<close>

theorem no_username_rejected_witness:
  "trim (replace_first (CHR ''@'') ''@  '') = [] \<and>
   dateRegex_test ''15.06.1990'' \<and> dayjs_strict ''15.06.1990'' \<noteq> None \<and>
   addPersonFromTelegramWithValidation ''x'' ''15.06.1990'' (Some ''@  '')
     [\<lparr>name = ''ann'', birthDate = ''15.06.1990'', telegramUsername = Some ''ann'', id' = 1\<rparr>]
   = (Inl UsernameEmpty,
      [\<lparr>name = ''ann'', birthDate = ''15.06.1990'', telegramUsername = Some ''ann'', id' = 1\<rparr>]) \<and>
   fst (addPersonFromTelegramWithValidation ''bob'' ''15.06.1990'' (Some ''@bob'') []) =
     Inr \<lparr>name = ''bob'', birthDate = ''15.06.1990'', telegramUsername = Some ''bob'', id' = 1\<rparr> \<and>
   (\<exists>h. Some ''@bob'' = Some h \<and> trim (replace_first (CHR ''@'') h) \<noteq> [] \<and>
        telegramUsername \<lparr>name = ''bob'', birthDate = ''15.06.1990'',
          telegramUsername = Some ''bob'', id' = 1\<rparr> = Some (trim (replace_first (CHR ''@'') h)))"
proof -
  have h: "case Some ''@  '' of None \<Rightarrow> True
           | Some h \<Rightarrow> trim (replace_first (CHR ''@'') h) = []"
    by (simp add: trim_def isWhiteSpace_def)
  have d: "dateRegex_test ''15.06.1990'' \<and> dayjs_strict ''15.06.1990'' \<noteq> None"
    by (simp add: dayjs_strict_None_iff date_eval)
  have ok: "fst (addPersonFromTelegramWithValidation ''bob'' ''15.06.1990'' (Some ''@bob'') []) =
     Inr \<lparr>name = ''bob'', birthDate = ''15.06.1990'', telegramUsername = Some ''bob'', id' = 1\<rparr>"
    by (simp add: validated_eval)
  note first = no_username_rejected[THEN conjunct1, THEN mp, OF h, of "''x''" "''15.06.1990''"
      "[\<lparr>name = ''ann'', birthDate = ''15.06.1990'', telegramUsername = Some ''ann'', id' = 1\<rparr>]"]
  note second = no_username_rejected[THEN conjunct2, THEN spec, THEN mp, OF ok]
  from first h d have a: "trim (replace_first (CHR ''@'') ''@  '') = [] \<and>
   dateRegex_test ''15.06.1990'' \<and> dayjs_strict ''15.06.1990'' \<noteq> None \<and>
   addPersonFromTelegramWithValidation ''x'' ''15.06.1990'' (Some ''@  '')
     [\<lparr>name = ''ann'', birthDate = ''15.06.1990'', telegramUsername = Some ''ann'', id' = 1\<rparr>]
   = (Inl UsernameEmpty,
      [\<lparr>name = ''ann'', birthDate = ''15.06.1990'', telegramUsername = Some ''ann'', id' = 1\<rparr>])"
    by (simp add: prod_eq_iff)
  from a ok second show ?thesis by blast
qed

text \<open>
  Counterexample to C10 as stated: the username \<open>@@\<close> is empty once its \<open>@\<close> characters are
  stripped and it is trimmed, yet the validated add stores a person whose username is \<open>@\<close>,
  since only the first \<open>@\<close> is removed.
\<close>

theorem second_at_sign_kept:
  "trim (filter (\<lambda>c. c \<noteq> CHR ''@'') ''@@'') = [] \<and>
   addPersonFromTelegramWithValidation ''@'' ''15.06.1990'' (Some ''@@'') []
   = (Inr \<lparr>name = ''@'', birthDate = ''15.06.1990'', telegramUsername = Some ''@'', id' = 1\<rparr>,
      [\<lparr>name = ''@'', birthDate = ''15.06.1990'', telegramUsername = Some ''@'', id' = 1\<rparr>])"
  by (simp add: validated_eval)

lemma list_ex_handle:
  "list_ex (\<lambda>p. case telegramUsername p of None \<Rightarrow> False
               | Some v \<Rightarrow> toLowerCase v = toLowerCase h) people \<longleftrightarrow> handleTaken h people"
  by (auto simp: handleTaken_def list_ex_iff split: option.splits)

lemma validated_duplicate:
  assumes "handleTaken (trim (replace_first (CHR ''@'') h)) people"
  shows "addPersonFromTelegramWithValidation n b (Some h) people =
           (Inl (if \<not> dateRegex_test b then InvalidDateFormat
                 else if dayjs_strict b = None then IncorrectDate
                 else if h = [] then UsernameRequired
                 else if trim (replace_first (CHR ''@'') h) = [] then UsernameEmpty
                 else AlreadyInList (trim (replace_first (CHR ''@'') h))), people)"
  using assms
  by (simp add: addPersonFromTelegramWithValidation_def Let_def list_ex_handle)

text \<open>
  Claim C4, as the code has it. When the cleaned username of the candidate is taken, the
  validated add throws and the roster is exactly unchanged; when moreover the birth date
  passes the two date checks (and the cleaned username is not empty), the error is the
  duplicate error carrying the cleaned username.
\<close>

theorem duplicate_username_rejected:
  "handleTaken (trim (replace_first (CHR ''@'') h)) people \<Longrightarrow>
   snd (addPersonFromTelegramWithValidation n b (Some h) people) = people \<and>
   (\<exists>e. fst (addPersonFromTelegramWithValidation n b (Some h) people) = Inl e) \<and>
   (dateRegex_test b \<and> dayjs_strict b \<noteq> None \<and> trim (replace_first (CHR ''@'') h) \<noteq> [] \<longrightarrow>
      fst (addPersonFromTelegramWithValidation n b (Some h) people) =
        Inl (AlreadyInList (trim (replace_first (CHR ''@'') h))))"
proof -
  assume t: "handleTaken (trim (replace_first (CHR ''@'') h)) people"
  have "h \<noteq> []" if "trim (replace_first (CHR ''@'') h) \<noteq> []"
    using that by (auto simp: trim_def)
  then show ?thesis
    by (auto simp: validated_duplicate[OF t])
qed

text \<open>
  An instance: \<open>@ANN\<close> is taken on a roster holding \<open>ann\<close>, and the add throws the duplicate
  error on a valid date.
\<close>

theorem duplicate_username_rejected_witness:
  "handleTaken (trim (replace_first (CHR ''@'') ''@ANN''))
     [\<lparr>name = ''ann'', birthDate = ''15.06.1990'', telegramUsername = Some ''ann'', id' = 1\<rparr>] \<and>
   dateRegex_test ''16.06.1992'' \<and> dayjs_strict ''16.06.1992'' \<noteq> None \<and>
   addPersonFromTelegramWithValidation ''ANN'' ''16.06.1992'' (Some ''@ANN'')
     [\<lparr>name = ''ann'', birthDate = ''15.06.1990'', telegramUsername = Some ''ann'', id' = 1\<rparr>]
   = (Inl (AlreadyInList ''ANN''),
      [\<lparr>name = ''ann'', birthDate = ''15.06.1990'', telegramUsername = Some ''ann'', id' = 1\<rparr>])"
proof -
  let ?ann = "\<lparr>name = ''ann'', birthDate = ''15.06.1990'', telegramUsername = Some ''ann'',
               id' = 1\<rparr>"
  have c: "trim (replace_first (CHR ''@'') ''@ANN'') = ''ANN''" by (simp add: trim_def isWhiteSpace_def)
  have l: "toLowerCase ''ann'' = toLowerCase ''ANN''" by (simp add: toLowerCase_def toLowerChar_def char_of_def bit_0)
  have h: "handleTaken (trim (replace_first (CHR ''@'') ''@ANN'')) [?ann]"
    unfolding c handleTaken_def using l by simp
  have d: "dateRegex_test ''16.06.1992'' \<and> dayjs_strict ''16.06.1992'' \<noteq> None"
    by (simp add: dayjs_strict_None_iff date_eval)
  from duplicate_username_rejected[OF h, of "''ANN''" "''16.06.1992''"] h d c
  show ?thesis by (simp add: prod_eq_iff)
qed

text \<open>
  Counterexample to C4 as stated: a candidate whose username matches an existing one up
  to case, but whose birth date is 31.02.2000, fails with the error of the date check,
  which comes first, and not with the duplicate error.
\<close>

theorem duplicate_with_bad_date:
  "toLowerCase ''ann'' = toLowerCase (trim (replace_first (CHR ''@'') ''@ANN'')) \<and>
   addPersonFromTelegramWithValidation ''ANN'' ''31.02.2000'' (Some ''@ANN'')
     [\<lparr>name = ''ann'', birthDate = ''15.06.1990'', telegramUsername = Some ''ann'', id' = 1\<rparr>]
   = (Inl IncorrectDate,
      [\<lparr>name = ''ann'', birthDate = ''15.06.1990'', telegramUsername = Some ''ann'', id' = 1\<rparr>])"
  by (simp add: validated_eval)

section \<open>Facts about the birthday check and the date validation\<close>

lemma strictEq_Some: "strictEq x (Some b) \<longleftrightarrow> x = Some b"
  by (cases x) auto

lemma date_eq_iff:
  "strictEq (date_of (dayjs_strict s)) (Some D) \<longleftrightarrow>
     denotesCalendarDate s \<and> 100 \<le> yearField s \<and> dayField s = D"
proof (cases "dayjs_strict s")
  case None
  then show ?thesis
    using dayjs_strict_None_iff[of s] by (auto simp: date_of_def)
next
  case (Some t)
  then show ?thesis
    using dayjs_strict_iff[of s t] by (auto simp: date_of_def)
qed

lemma month_eq_iff:
  "strictEq (month_of (dayjs_strict s)) (Some M) \<longleftrightarrow>
     denotesCalendarDate s \<and> 100 \<le> yearField s \<and> monthField s - 1 = M"
proof (cases "dayjs_strict s")
  case None
  then show ?thesis
    using dayjs_strict_None_iff[of s] by (auto simp: month_of_def)
next
  case (Some t)
  then show ?thesis
    using dayjs_strict_iff[of s t] by (auto simp: month_of_def)
qed




text \<open>The three examples of the specification for the birth date 15.06.1990.\<close>

lemma birthday_examples:
  "getPeopleWithBirthdayToday \<lparr>dj_year = 2024, dj_month = 5, dj_date = 15, dj_ms = 0\<rparr>
     [\<lparr>name = ''A'', birthDate = ''15.06.1990'', telegramUsername = None, id' = 1\<rparr>]
   = [\<lparr>name = ''A'', birthDate = ''15.06.1990'', telegramUsername = None, id' = 1\<rparr>]"
  "getPeopleWithBirthdayToday \<lparr>dj_year = 1990, dj_month = 5, dj_date = 15, dj_ms = 0\<rparr>
     [\<lparr>name = ''A'', birthDate = ''15.06.1990'', telegramUsername = None, id' = 1\<rparr>]
   = [\<lparr>name = ''A'', birthDate = ''15.06.1990'', telegramUsername = None, id' = 1\<rparr>]"
  "getPeopleWithBirthdayToday \<lparr>dj_year = 2024, dj_month = 5, dj_date = 16, dj_ms = 0\<rparr>
     [\<lparr>name = ''A'', birthDate = ''15.06.1990'', telegramUsername = None, id' = 1\<rparr>]
   = []"
  by (simp_all add: getPeopleWithBirthdayToday_def Let_def date_eq_iff month_eq_iff date_eval)

text \<open>
  Claim C5. When the \<open>birthDate\<close> of the candidate does not have the form DD.MM.YYYY, or has
  it and names no real calendar date (31.02.2000, a month 13), the validated add throws
  the error of the corresponding date check and the roster is unchanged. A person is
  stored only with a \<open>birthDate\<close> that names a real calendar date, and the stored text is
  the text given: no other date is put in its place.
\<close>

theorem invalid_birthDate_rejected:
  "(\<not> denotesCalendarDate b \<longrightarrow>
      addPersonFromTelegramWithValidation n b u people =
        (Inl (if dateRegex_test b then IncorrectDate else InvalidDateFormat), people)) \<and>
   (addPersonFromTelegramWithValidation n b u people = (Inr p, people') \<longrightarrow>
      denotesCalendarDate b \<and> birthDate p = b)"
proof -
  have none: "dayjs_strict b = None" if "\<not> denotesCalendarDate b"
    using that dayjs_strict_None_iff[of b] by simp
  have first: "addPersonFromTelegramWithValidation n b u people =
        (Inl (if dateRegex_test b then IncorrectDate else InvalidDateFormat), people)"
    if "\<not> denotesCalendarDate b"
    using none[OF that] by (simp add: addPersonFromTelegramWithValidation_def)
  have second: "denotesCalendarDate b \<and> birthDate p = b"
    if ok: "addPersonFromTelegramWithValidation n b u people = (Inr p, people')"
  proof -
    have "denotesCalendarDate b"
    proof (rule ccontr)
      assume "\<not> denotesCalendarDate b"
      from first[OF this] ok show False by simp
    qed
    moreover from validated_Inr[OF ok] obtain c where "birthDate c = b"
      and "(p, people') = addPerson c people"
      by force
    then have "birthDate p = b"
      using addPerson_fields(2)[of c people] by (metis fst_conv)
    ultimately show ?thesis by simp
  qed
  from first second show ?thesis by blast
qed

text \<open>
  Instances: 31.02.2000 and a month 13 fail the calendar check, 15-06-1990 fails the
  format check, and 29.02.2000 is stored as given.
\<close>

theorem invalid_birthDate_rejected_witness:
  "\<not> denotesCalendarDate ''31.02.2000'' \<and>
   addPersonFromTelegramWithValidation ''ann'' ''31.02.2000'' (Some ''@ann'') []
     = (Inl IncorrectDate, []) \<and>
   \<not> denotesCalendarDate ''15.13.1990'' \<and>
   addPersonFromTelegramWithValidation ''ann'' ''15.13.1990'' (Some ''@ann'') []
     = (Inl IncorrectDate, []) \<and>
   \<not> denotesCalendarDate ''15-06-1990'' \<and>
   addPersonFromTelegramWithValidation ''ann'' ''15-06-1990'' (Some ''@ann'') []
     = (Inl InvalidDateFormat, []) \<and>
   addPersonFromTelegramWithValidation ''ann'' ''29.02.2000'' (Some ''@ann'') []
     = (Inr \<lparr>name = ''ann'', birthDate = ''29.02.2000'', telegramUsername = Some ''ann'', id' = 1\<rparr>,
        [\<lparr>name = ''ann'', birthDate = ''29.02.2000'', telegramUsername = Some ''ann'', id' = 1\<rparr>]) \<and>
   denotesCalendarDate ''29.02.2000''"
proof -
  have a: "\<not> denotesCalendarDate ''31.02.2000''" "dateRegex_test ''31.02.2000''"
    "\<not> denotesCalendarDate ''15.13.1990''" "dateRegex_test ''15.13.1990''"
    "\<not> denotesCalendarDate ''15-06-1990''" "\<not> dateRegex_test ''15-06-1990''"
    by (simp_all add: date_eval)
  have ok: "addPersonFromTelegramWithValidation ''ann'' ''29.02.2000'' (Some ''@ann'') []
     = (Inr \<lparr>name = ''ann'', birthDate = ''29.02.2000'', telegramUsername = Some ''ann'', id' = 1\<rparr>,
        [\<lparr>name = ''ann'', birthDate = ''29.02.2000'', telegramUsername = Some ''ann'', id' = 1\<rparr>])"
    by (simp add: validated_eval)
  from invalid_birthDate_rejected[of "''31.02.2000''" "''ann''" "Some ''@ann''" "[]"]
    invalid_birthDate_rejected[of "''15.13.1990''" "''ann''" "Some ''@ann''" "[]"]
    invalid_birthDate_rejected[of "''15-06-1990''" "''ann''" "Some ''@ann''" "[]"]
    invalid_birthDate_rejected[of "''29.02.2000''" "''ann''" "Some ''@ann''" "[]"]
    a ok
  show ?thesis by simp
qed

section \<open>Facts about the statistics\<close>

lemma month_filter_iff:
  "strictEq (month_of (dayjs_strict (birthDate p))) (Some M) \<longleftrightarrow> bornInMonth (M + 1) p"
proof (cases "dayjs_strict (birthDate p)")
  case None
  then show ?thesis
    using dayjs_strict_None_iff[of "birthDate p"] by (auto simp: month_of_def bornInMonth_def)
next
  case (Some t)
  then show ?thesis
    using dayjs_strict_iff[of "birthDate p" t] by (auto simp: month_of_def bornInMonth_def)
qed

















text \<open>From December the next month is January.\<close>

lemma statistics_december_example:
  "nextMonth (getBirthdayStats \<lparr>dj_year = 2024, dj_month = 11, dj_date = 31, dj_ms = 0\<rparr>
     [\<lparr>name = ''A'', birthDate = ''01.01.2000'', telegramUsername = None, id' = 1\<rparr>,
      \<lparr>name = ''B'', birthDate = ''31.12.1999'', telegramUsername = None, id' = 2\<rparr>]) = 1"
  by (simp add: getBirthdayStats_def month_filter_iff add_month_def bornInMonth_def date_eval)

section \<open>Facts about the daily job\<close>

lemma replay_append:
  "replay telegram (cs @ ds) w =
     (case replay telegram cs w of
        (rs, w') \<Rightarrow> (case replay telegram ds w' of (ss, w'') \<Rightarrow> (rs @ ss, w'')))"
  by (induction cs arbitrary: w) (auto split: prod.splits)

lemma send_one:
  "fst (sendBirthdayCongratulations telegram today person w) = Resolved \<and>
   (\<exists>r. fst (snd (sendBirthdayCongratulations telegram today person w)) =
          [(SendPhoto (congratulationsMessage today person), Resolved)] \<or>
        fst (snd (sendBirthdayCongratulations telegram today person w)) =
          [(SendPhoto (congratulationsMessage today person), Rejected),
           (SendMessage (congratulationsMessage today person), r)]) \<and>
   replay telegram (map fst (fst (snd (sendBirthdayCongratulations telegram today person w)))) w
     = snd (sendBirthdayCongratulations telegram today person w)"
  by (auto simp: sendBirthdayCongratulations_def Let_def split: prod.splits outcome.splits)

lemma notified_Cons:
  assumes "cs = [(SendPhoto (congratulationsMessage today p), Resolved)] \<or>
           cs = [(SendPhoto (congratulationsMessage today p), Rejected),
                 (SendMessage (congratulationsMessage today p), r)]"
    and "notified today ds ps"
  shows "notified today (cs @ ds) (p # ps)"
  using assms by auto

lemma sendAll_notified:
  "fst (sendAll telegram today ps w) = Resolved \<and>
   notified today (fst (snd (sendAll telegram today ps w))) ps \<and>
   replay telegram (map fst (fst (snd (sendAll telegram today ps w)))) w
     = snd (sendAll telegram today ps w)"
proof (induction ps arbitrary: w)
  case Nil
  show ?case by simp
next
  case (Cons p ps)
  obtain r cs w' where one: "sendBirthdayCongratulations telegram today p w = (r, cs, w')"
    by (cases "sendBirthdayCongratulations telegram today p w") auto
  from send_one[of telegram today p w] one have r: "r = Resolved"
    and cs: "\<exists>r'. cs = [(SendPhoto (congratulationsMessage today p), Resolved)] \<or>
           cs = [(SendPhoto (congratulationsMessage today p), Rejected),
                 (SendMessage (congratulationsMessage today p), r')]"
    and rp: "replay telegram (map fst cs) w = (cs, w')"
    by auto
  obtain r2 ds w'' where rest: "sendAll telegram today ps w' = (r2, ds, w'')"
    by (cases "sendAll telegram today ps w'") auto
  from Cons.IH[of w'] rest have r2: "r2 = Resolved" and n: "notified today ds ps"
    and rp2: "replay telegram (map fst ds) w' = (ds, w'')"
    by auto
  have all: "sendAll telegram today (p # ps) w = (Resolved, cs @ ds, w'')"
    using one rest r r2 by simp
  from cs obtain r' where "cs = [(SendPhoto (congratulationsMessage today p), Resolved)] \<or>
           cs = [(SendPhoto (congratulationsMessage today p), Rejected),
                 (SendMessage (congratulationsMessage today p), r')]" by blast
  from notified_Cons[OF this n] have "notified today (cs @ ds) (p # ps)" .
  moreover have "replay telegram (map fst (cs @ ds)) w = (cs @ ds, w'')"
    using rp rp2 by (simp add: replay_append)
  ultimately show ?case unfolding all by simp
qed

text \<open>
  Claim C8. On every run of \<open>checkBirthdays\<close>, whatever the Telegram client answers, the
  promise of the job is resolved (no failure of a send reaches the scheduler), and the
  calls made are, for each person with a birthday in roster order, one picture call,
  followed by one text call exactly when the picture call was rejected: each person is
  attempted once, a failure for one person does not stop the persons after, and a
  failed picture falls back to the text. The calls run one after the other, each on
  the world the one before left.
\<close>

theorem daily_job_notifies_each_once:
  "fst (checkBirthdays telegram today people w) = Resolved \<and>
   notified today (fst (snd (checkBirthdays telegram today people w)))
     (getPeopleWithBirthdayToday today people) \<and>
   replay telegram (map fst (fst (snd (checkBirthdays telegram today people w)))) w
     = snd (checkBirthdays telegram today people w)"
proof (cases "getPeopleWithBirthdayToday today people = []")
  case True
  then show ?thesis by (simp add: checkBirthdays_def)
next
  case False
  then have "checkBirthdays telegram today people w =
      sendAll telegram today (getPeopleWithBirthdayToday today people) w"
    by (simp add: checkBirthdays_def Let_def)
  then show ?thesis
    using sendAll_notified[of telegram today "getPeopleWithBirthdayToday today people" w]
    by simp
qed

text \<open>
  An instance: the first two calls are rejected and the later ones resolved. The first
  person gets the picture call and the text call, both rejected; the second person is
  attempted all the same, and the job resolves.
\<close>

theorem daily_job_notifies_each_once_witness:
  "checkBirthdays (\<lambda>c w. (if w = 0 \<or> w = 1 then Rejected else Resolved, Suc w))
     \<lparr>dj_year = 2024, dj_month = 5, dj_date = 15, dj_ms = 39600000\<rparr>
     [\<lparr>name = ''Ivan'', birthDate = ''15.06.1990'', telegramUsername = Some ''ivan_petrov'', id' = 1\<rparr>,
      \<lparr>name = ''Maria'', birthDate = ''15.06.1985'', telegramUsername = None, id' = 2\<rparr>,
      \<lparr>name = ''Alex'', birthDate = ''16.06.1992'', telegramUsername = Some ''alex_ivanov'', id' = 3\<rparr>]
     (0::nat) =
   (Resolved,
    [(SendPhoto (congratulationsMessage \<lparr>dj_year = 2024, dj_month = 5, dj_date = 15, dj_ms = 39600000\<rparr>
        \<lparr>name = ''Ivan'', birthDate = ''15.06.1990'', telegramUsername = Some ''ivan_petrov'', id' = 1\<rparr>),
      Rejected),
     (SendMessage (congratulationsMessage \<lparr>dj_year = 2024, dj_month = 5, dj_date = 15, dj_ms = 39600000\<rparr>
        \<lparr>name = ''Ivan'', birthDate = ''15.06.1990'', telegramUsername = Some ''ivan_petrov'', id' = 1\<rparr>),
      Rejected),
     (SendPhoto (congratulationsMessage \<lparr>dj_year = 2024, dj_month = 5, dj_date = 15, dj_ms = 39600000\<rparr>
        \<lparr>name = ''Maria'', birthDate = ''15.06.1985'', telegramUsername = None, id' = 2\<rparr>),
      Resolved)],
    3) \<and>
   notified \<lparr>dj_year = 2024, dj_month = 5, dj_date = 15, dj_ms = 39600000\<rparr>
     (fst (snd (checkBirthdays (\<lambda>c w. (if w = 0 \<or> w = 1 then Rejected else Resolved, Suc w))
       \<lparr>dj_year = 2024, dj_month = 5, dj_date = 15, dj_ms = 39600000\<rparr>
       [\<lparr>name = ''Ivan'', birthDate = ''15.06.1990'', telegramUsername = Some ''ivan_petrov'', id' = 1\<rparr>,
        \<lparr>name = ''Maria'', birthDate = ''15.06.1985'', telegramUsername = None, id' = 2\<rparr>,
        \<lparr>name = ''Alex'', birthDate = ''16.06.1992'', telegramUsername = Some ''alex_ivanov'', id' = 3\<rparr>]
       (0::nat))))
     [\<lparr>name = ''Ivan'', birthDate = ''15.06.1990'', telegramUsername = Some ''ivan_petrov'', id' = 1\<rparr>,
      \<lparr>name = ''Maria'', birthDate = ''15.06.1985'', telegramUsername = None, id' = 2\<rparr>]"
proof -
  let ?tg = "\<lambda>(c::call) (w::nat). (if w = 0 \<or> w = 1 then Rejected else Resolved, Suc w)"
  let ?today = "\<lparr>dj_year = 2024, dj_month = 5, dj_date = 15, dj_ms = 39600000\<rparr>"
  let ?ivan = "\<lparr>name = ''Ivan'', birthDate = ''15.06.1990'',
                telegramUsername = Some ''ivan_petrov'', id' = 1\<rparr>"
  let ?maria = "\<lparr>name = ''Maria'', birthDate = ''15.06.1985'', telegramUsername = None, id' = 2\<rparr>"
  let ?alex = "\<lparr>name = ''Alex'', birthDate = ''16.06.1992'',
                telegramUsername = Some ''alex_ivanov'', id' = 3\<rparr>"
  have g: "getPeopleWithBirthdayToday ?today [?ivan, ?maria, ?alex] = [?ivan, ?maria]"
    by (simp add: getPeopleWithBirthdayToday_def Let_def date_eq_iff month_eq_iff date_eval)
  have e: "checkBirthdays ?tg ?today [?ivan, ?maria, ?alex] 0 =
     (Resolved,
      [(SendPhoto (congratulationsMessage ?today ?ivan), Rejected),
       (SendMessage (congratulationsMessage ?today ?ivan), Rejected),
       (SendPhoto (congratulationsMessage ?today ?maria), Resolved)], 3)"
    by (simp add: checkBirthdays_def g sendBirthdayCongratulations_def Let_def)
  from daily_job_notifies_each_once[of ?tg ?today "[?ivan, ?maria, ?alex]" 0]
  have "notified ?today (fst (snd (checkBirthdays ?tg ?today [?ivan, ?maria, ?alex] 0)))
          (getPeopleWithBirthdayToday ?today [?ivan, ?maria, ?alex])"
    by simp
  then have "notified ?today (fst (snd (checkBirthdays ?tg ?today [?ivan, ?maria, ?alex] 0)))
          [?ivan, ?maria]"
    unfolding g .
  with e show ?thesis by simp
qed

section \<open>Facts about the age\<close>

lemma div_pred:
  assumes "0 < n"
  shows "(y::int) div n = (y - 1) div n + (if y mod n = 0 then 1 else 0)"
proof (cases "y mod n = 0")
  case True
  define q where "q = y div n"
  have "y = n * q + y mod n" unfolding q_def by simp
  with True have "y = n * q" by simp
  then have "y - 1 = n * (q - 1) + (n - 1)" by (simp add: algebra_simps)
  then have "(y - 1) div n = q - 1"
    using assms by (intro int_div_pos_eq[where r = "n - 1"]) simp_all
  then have "(y - 1) div n = y div n - 1" by (simp add: q_def)
  with True show ?thesis by simp
next
  case False
  have r: "0 \<le> y mod n" "y mod n < n" using assms by simp_all
  with False have r1: "0 \<le> y mod n - 1" by simp
  have "y - 1 = n * (y div n) + (y mod n - 1)" by simp
  then have "(y - 1) div n = y div n"
    using r r1 by (intro int_div_pos_eq[where r = "y mod n - 1"]) simp_all
  with False show ?thesis by simp
qed

lemma mod_400_100: "(y::int) mod 400 = 0 \<Longrightarrow> y mod 100 = 0"
proof -
  assume "y mod 400 = 0"
  then have "400 dvd y" by (simp add: dvd_eq_mod_eq_0)
  moreover have "(100::int) dvd 400" by simp
  ultimately have "100 dvd y" by (rule dvd_trans[rotated])
  then show ?thesis by (simp add: dvd_eq_mod_eq_0)
qed

lemma mod_100_4: "(y::int) mod 100 = 0 \<Longrightarrow> y mod 4 = 0"
proof -
  assume "y mod 100 = 0"
  then have "100 dvd y" by (simp add: dvd_eq_mod_eq_0)
  moreover have "(4::int) dvd 100" by simp
  ultimately have "4 dvd y" by (rule dvd_trans[rotated])
  then show ?thesis by (simp add: dvd_eq_mod_eq_0)
qed

lemma indicator_bool:
  "(P400 \<longrightarrow> P100) \<Longrightarrow> (P100 \<longrightarrow> P4) \<Longrightarrow>
   (if P4 then 1 else 0) - (if P100 then 1 else 0) + (if P400 then 1 else 0)
     = (if (P4 \<and> \<not> P100) \<or> P400 then 1 else (0::int))"
  by auto

lemma leap_indicator:
  "(if (y::int) mod 4 = 0 then 1 else 0) - (if y mod 100 = 0 then 1 else 0)
     + (if y mod 400 = 0 then 1 else 0) = (if isLeapYear y then 1 else (0::int))"
  unfolding isLeapYear_def
proof (rule indicator_bool)
  show "y mod 400 = 0 \<longrightarrow> y mod 100 = 0" by (rule impI) (rule mod_400_100)
  show "y mod 100 = 0 \<longrightarrow> y mod 4 = 0" by (rule impI) (rule mod_100_4)
qed

lemma year_step_algebra:
  "p = A + ia \<Longrightarrow> q = B + ib \<Longrightarrow> r = C + ic \<Longrightarrow>
   365 * y + p - q + r = (365 * (y - 1) + A - B + C) + 365 + (ia - ib + (ic::int))"
  by simp

lemma daysBeforeYear_Suc:
  "daysBeforeYear (y + 1) = daysBeforeYear y + (if isLeapYear y then 366 else 365)"
proof -
  have s: "daysBeforeYear (y + 1) = 365 * y + y div 4 - y div 100 + y div 400"
    by (simp add: daysBeforeYear_def)
  have a: "y div 4 = (y - 1) div 4 + (if y mod 4 = 0 then 1 else 0)"
    by (rule div_pred) simp
  have b: "y div 100 = (y - 1) div 100 + (if y mod 100 = 0 then 1 else 0)"
    by (rule div_pred) simp
  have c: "y div 400 = (y - 1) div 400 + (if y mod 400 = 0 then 1 else 0)"
    by (rule div_pred) simp
  have "365 * y + y div 4 - y div 100 + y div 400 =
        daysBeforeYear y + 365 + ((if y mod 4 = 0 then 1 else 0) - (if y mod 100 = 0 then 1 else 0)
          + (if y mod 400 = 0 then 1 else 0))"
    unfolding daysBeforeYear_def by (rule year_step_algebra[OF a b c])
  also have "\<dots> = daysBeforeYear y + 365 + (if isLeapYear y then 1 else 0)"
    by (simp only: leap_indicator)
  also have "\<dots> = daysBeforeYear y + (if isLeapYear y then 366 else 365)"
    by simp
  finally show ?thesis by (simp only: s)
qed

lemma add_month_whole:
  assumes "0 \<le> M'" "M' < 12"
  shows "add_month a ((y' - dj_year a) * 12 + (M' - dj_month a)) =
           a\<lparr>dj_year := y', dj_month := M', dj_date := min (dj_date a) (daysInMonth y' M')\<rparr>"
proof -
  define k where "k = y' - dj_year a"
  have e: "dj_month a + (k * 12 + (M' - dj_month a)) = M' + k * 12"
    by simp
  have d: "(M' + k * 12) div 12 = k" "(M' + k * 12) mod 12 = M'"
    using assms by simp_all
  have y: "dj_year a + k = y'" by (simp add: k_def)
  show ?thesis
    unfolding add_month_def Let_def k_def[symmetric] e d y by simp
qed

lemma valueOf_monthStart:
  "valueOf t = (monthStart (dj_year t) (dj_month t) + (dj_date t - 1)) * 86400000 + dj_ms t"
  by (simp add: valueOf_def monthStart_def)

lemma daysBeforeMonth_Suc:
  "0 \<le> M \<Longrightarrow> daysBeforeMonth y (M + 1) = daysBeforeMonth y M + daysInMonth y M"
proof -
  assume M: "0 \<le> M"
  then have "nat (M + 1) = Suc (nat M)" by simp
  then show ?thesis using M by (simp add: daysBeforeMonth_def)
qed

lemma upt11: "[0..<11] = [0, 1, 2, 3, 4, 5, 6, 7, 8, 9, 10]"
  by code_simp

lemma daysBeforeMonth_11: "daysBeforeMonth y 11 = (if isLeapYear y then 335 else 334)"
  by (simp add: daysBeforeMonth_def upt11 daysInMonth_def)

lemma daysBeforeMonth_0: "daysBeforeMonth y 0 = 0"
  by (simp add: daysBeforeMonth_def)

lemma monthStart_next:
  "0 \<le> M \<Longrightarrow> M < 12 \<Longrightarrow>
   monthStart (fst (nextMonthOf (y, M))) (snd (nextMonthOf (y, M))) = monthStart y M + daysInMonth y M"
proof (cases "M = 11")
  case True
  have "monthStart (y + 1) 0 = monthStart y 11 + daysInMonth y 11"
    by (simp add: monthStart_def daysBeforeYear_Suc daysBeforeMonth_11 daysBeforeMonth_0
          daysInMonth_def)
  with True show ?thesis by (simp add: nextMonthOf_def)
next
  case False
  assume "0 \<le> M" "M < 12"
  with False show ?thesis
    by (simp add: nextMonthOf_def monthStart_def daysBeforeMonth_Suc)
qed

lemma next_prev: "0 \<le> M \<Longrightarrow> M < 12 \<Longrightarrow> nextMonthOf (prevMonthOf (y, M)) = (y, M)"
  by (simp add: nextMonthOf_def prevMonthOf_def)

lemma prev_range:
  "0 \<le> M \<Longrightarrow> M < 12 \<Longrightarrow> 0 \<le> snd (prevMonthOf (y, M)) \<and> snd (prevMonthOf (y, M)) < 12"
  by (simp add: prevMonthOf_def)

lemma next_range:
  "0 \<le> M \<Longrightarrow> M < 12 \<Longrightarrow> 0 \<le> snd (nextMonthOf (y, M)) \<and> snd (nextMonthOf (y, M)) < 12"
  by (simp add: nextMonthOf_def)

lemma monthStart_prev:
  assumes "0 \<le> M" "M < 12"
  shows "monthStart y M = monthStart (fst (prevMonthOf (y, M))) (snd (prevMonthOf (y, M)))
                    + daysInMonth (fst (prevMonthOf (y, M))) (snd (prevMonthOf (y, M)))"
proof -
  obtain y' M' where p: "prevMonthOf (y, M) = (y', M')" by (cases "prevMonthOf (y, M)") auto
  from prev_range[OF assms, of y] p have r: "0 \<le> M'" "M' < 12" by simp_all
  from next_prev[OF assms, of y] p have n: "nextMonthOf (y', M') = (y, M)" by simp
  from monthStart_next[OF r, of y'] show ?thesis unfolding p n by simp
qed

lemma add_month_next:
  assumes "0 \<le> M'" "M' < 12"
  shows "add_month a ((y' - dj_year a) * 12 + (M' - dj_month a) + 1) =
           a\<lparr>dj_year := fst (nextMonthOf (y', M')), dj_month := snd (nextMonthOf (y', M')),
             dj_date := min (dj_date a)
               (daysInMonth (fst (nextMonthOf (y', M'))) (snd (nextMonthOf (y', M'))))\<rparr>"
proof -
  obtain y2 M2 where n: "nextMonthOf (y', M') = (y2, M2)" by (cases "nextMonthOf (y', M')") auto
  from next_range[OF assms, of y'] n have r: "0 \<le> M2" "M2 < 12" by simp_all
  have eq: "(y' - dj_year a) * 12 + (M' - dj_month a) + 1 = (y2 - dj_year a) * 12 + (M2 - dj_month a)"
    using n by (auto simp: nextMonthOf_def split: if_splits)
  show ?thesis unfolding n eq fst_conv snd_conv by (rule add_month_whole[OF r])
qed

lemma add_month_prev:
  assumes "0 \<le> M'" "M' < 12"
  shows "add_month a ((y' - dj_year a) * 12 + (M' - dj_month a) + - 1) =
           a\<lparr>dj_year := fst (prevMonthOf (y', M')), dj_month := snd (prevMonthOf (y', M')),
             dj_date := min (dj_date a)
               (daysInMonth (fst (prevMonthOf (y', M'))) (snd (prevMonthOf (y', M'))))\<rparr>"
proof -
  obtain y2 M2 where n: "prevMonthOf (y', M') = (y2, M2)" by (cases "prevMonthOf (y', M')") auto
  from prev_range[OF assms, of y'] n have r: "0 \<le> M2" "M2 < 12" by simp_all
  have eq: "(y' - dj_year a) * 12 + (M' - dj_month a) + - 1 = (y2 - dj_year a) * 12 + (M2 - dj_month a)"
    using n by (auto simp: prevMonthOf_def split: if_splits)
  show ?thesis unfolding n eq fst_conv snd_conv by (rule add_month_whole[OF r])
qed

lemma monthDiff_body:
  "\<not> dj_date a < dj_date b \<Longrightarrow>
   monthDiff a b =
     (if valueOf b - valueOf (add_month a ((dj_year b - dj_year a) * 12 + (dj_month b - dj_month a))) < 0
      then - (of_int ((dj_year b - dj_year a) * 12 + (dj_month b - dj_month a)) +
              of_int (valueOf b - valueOf (add_month a ((dj_year b - dj_year a) * 12 + (dj_month b - dj_month a)))) /
              of_int (valueOf (add_month a ((dj_year b - dj_year a) * 12 + (dj_month b - dj_month a)))
                      - valueOf (add_month a ((dj_year b - dj_year a) * 12 + (dj_month b - dj_month a) + - 1))))
      else - (of_int ((dj_year b - dj_year a) * 12 + (dj_month b - dj_month a)) +
              of_int (valueOf b - valueOf (add_month a ((dj_year b - dj_year a) * 12 + (dj_month b - dj_month a)))) /
              of_int (valueOf (add_month a ((dj_year b - dj_year a) * 12 + (dj_month b - dj_month a) + 1))
                      - valueOf (add_month a ((dj_year b - dj_year a) * 12 + (dj_month b - dj_month a))))))"
  by (subst monthDiff.simps) (simp add: Let_def)

lemma monthDiff_swap:
  "dj_date a < dj_date b \<Longrightarrow> monthDiff a b = - monthDiff b a"
  by (subst monthDiff.simps) simp

lemma valueOf_moved:
  "valueOf (t\<lparr>dj_year := y', dj_month := M', dj_date := d'\<rparr>)
     = (monthStart y' M' + (d' - 1)) * 86400000 + dj_ms t"
  by (simp add: valueOf_monthStart)

lemma ratio_neg:
  assumes "0 < den" "num < 0" "- den < num"
  shows "- 1 < (of_int num / of_int den :: rat)" "(of_int num / of_int den :: rat) < 0"
proof -
  have d: "(0::rat) < of_int den" using assms(1) by simp
  have "(of_int (- den) :: rat) < of_int num" using assms(3) by (simp only: of_int_less_iff)
  then have "- (of_int den :: rat) < of_int num" by simp
  then show "- 1 < (of_int num / of_int den :: rat)"
    using d by (simp add: pos_less_divide_eq)
  have "(of_int num :: rat) < 0" using assms(2) by simp
  then show "(of_int num / of_int den :: rat) < 0"
    using d by (simp add: divide_neg_pos)
qed

lemma ratio_nonneg:
  assumes "0 < den" "0 \<le> num" "num < den"
  shows "0 \<le> (of_int num / of_int den :: rat)" "(of_int num / of_int den :: rat) < 1"
proof -
  have d: "(0::rat) < of_int den" using assms(1) by simp
  have "(0::rat) \<le> of_int num" using assms(2) by simp
  then show "0 \<le> (of_int num / of_int den :: rat)" using d by simp
  have "(of_int num :: rat) < of_int den" using assms(3) by (simp only: of_int_less_iff)
  then show "(of_int num / of_int den :: rat) < 1" using d by simp
qed

lemma monthDiff_case1:
  fixes y M D ms y0 M0 D0 :: int
  defines "T \<equiv> \<lparr>dj_year = y, dj_month = M, dj_date = D, dj_ms = ms\<rparr>"
    and "B \<equiv> \<lparr>dj_year = y0, dj_month = M0, dj_date = D0, dj_ms = 0\<rparr>"
    and "K \<equiv> (y - y0) * 12 + (M - M0)"
  assumes t: "0 \<le> M" "M < 12" "1 \<le> D" "0 \<le> ms" "ms < 86400000"
    and b: "0 \<le> M0" "M0 < 12" "1 \<le> D0" "D0 \<le> daysInMonth y0 M0"
    and ge: "D0 \<le> D"
  shows "of_int K \<le> monthDiff T B \<and> monthDiff T B < of_int K + 1"
proof -
  define W where "W = (y0 - y) * 12 + (M0 - M)"
  have WK: "W = - K" by (simp add: W_def K_def)
  define m where "m = min D (daysInMonth y0 M0)"
  have m: "D0 \<le> m" "1 \<le> m" using ge b by (simp_all add: m_def)
  have W': "(dj_year B - dj_year T) * 12 + (dj_month B - dj_month T) = W"
    by (simp add: W_def T_def B_def)
  have anchor: "add_month T W = T\<lparr>dj_year := y0, dj_month := M0, dj_date := m\<rparr>"
    using add_month_whole[OF b(1,2), of T y0] by (simp add: W_def T_def m_def)
  define num where "num = valueOf B - valueOf (add_month T W)"
  have num: "num = (D0 - m) * 86400000 - ms"
    unfolding num_def anchor valueOf_moved
    by (simp add: valueOf_monthStart B_def T_def algebra_simps)
  have num_le: "num \<le> 0" using m(1) t(4) unfolding num by (simp add: algebra_simps)
  have nd: "\<not> dj_date T < dj_date B" using ge by (simp add: T_def B_def)
  note body = monthDiff_body[OF nd, unfolded W', folded num_def]
  show ?thesis
  proof (cases "num < 0")
    case True
    obtain py pM where p: "prevMonthOf (y0, M0) = (py, pM)" by (cases "prevMonthOf (y0, M0)") auto
    define m' where "m' = min D (daysInMonth py pM)"
    have anchor2: "add_month T (W + - 1) = T\<lparr>dj_year := py, dj_month := pM, dj_date := m'\<rparr>"
      using add_month_prev[OF b(1,2), of T y0] by (simp add: W_def T_def m'_def p)
    define den where "den = valueOf (add_month T W) - valueOf (add_month T (W + - 1))"
    have ms: "monthStart y0 M0 = monthStart py pM + daysInMonth py pM"
      using monthStart_prev[OF b(1,2), of y0] by (simp add: p)
    have den: "den = (daysInMonth py pM + m - m') * 86400000"
      unfolding den_def anchor anchor2 valueOf_moved ms by (simp add: algebra_simps)
    have m'le: "m' \<le> daysInMonth py pM" by (simp add: m'_def)
    have den_pos: "0 < den" unfolding den using m'le m(2) by simp
    have "num + den = (D0 + daysInMonth py pM - m') * 86400000 - ms"
      unfolding num den by (simp add: algebra_simps)
    moreover have "1 * 86400000 \<le> (D0 + daysInMonth py pM - m') * 86400000"
      using m'le b(3) by (intro mult_right_mono) simp_all
    ultimately have lower: "- den < num" using t(5) by simp
    note r = ratio_neg[OF den_pos True lower]
    have "monthDiff T B = - (of_int W + of_int num / of_int den)"
      using body True by (simp add: den_def)
    then have "monthDiff T B = of_int K - of_int num / of_int den"
      by (simp add: WK)
    with r show ?thesis by simp
  next
    case False
    with num_le have "num = 0" by simp
    with body have "monthDiff T B = - of_int W" by simp
    then show ?thesis by (simp add: WK)
  qed
qed

lemma monthDiff_case2:
  fixes y M D ms y0 M0 D0 :: int
  defines "T \<equiv> \<lparr>dj_year = y, dj_month = M, dj_date = D, dj_ms = ms\<rparr>"
    and "B \<equiv> \<lparr>dj_year = y0, dj_month = M0, dj_date = D0, dj_ms = 0\<rparr>"
    and "K \<equiv> (y - y0) * 12 + (M - M0)"
  assumes t: "0 \<le> M" "M < 12" "1 \<le> D" "D \<le> daysInMonth y M" "0 \<le> ms" "ms < 86400000"
    and b: "1 \<le> D0"
    and lt: "D < D0"
  shows "(D < min D0 (daysInMonth y M) \<longrightarrow>
            of_int K - 1 < monthDiff T B \<and> monthDiff T B < of_int K) \<and>
         (\<not> D < min D0 (daysInMonth y M) \<longrightarrow>
            of_int K \<le> monthDiff T B \<and> monthDiff T B < of_int K + 1)"
proof -
  define m where "m = min D0 (daysInMonth y M)"
  have W': "(dj_year T - dj_year B) * 12 + (dj_month T - dj_month B) = K"
    by (simp add: K_def T_def B_def)
  have anchor: "add_month B K = B\<lparr>dj_year := y, dj_month := M, dj_date := m\<rparr>"
    using add_month_whole[OF t(1,2), of B y] by (simp add: K_def B_def m_def)
  define num where "num = valueOf T - valueOf (add_month B K)"
  have num: "num = (D - m) * 86400000 + ms"
    unfolding num_def anchor valueOf_moved
    by (simp add: valueOf_monthStart B_def T_def algebra_simps)
  have nd: "\<not> dj_date B < dj_date T" using lt by (simp add: T_def B_def)
  note body = monthDiff_body[OF nd, unfolded W', folded num_def]
  have swap: "monthDiff T B = - monthDiff B T"
    by (rule monthDiff_swap) (simp add: T_def B_def lt)
  show ?thesis
  proof (cases "D < m")
    case True
    then have "(D - m) * 86400000 \<le> (- 1) * 86400000"
      by (intro mult_right_mono) simp_all
    then have neg: "num < 0" unfolding num using t(6) by simp
    obtain py pM where p: "prevMonthOf (y, M) = (py, pM)" by (cases "prevMonthOf (y, M)") auto
    define m' where "m' = min D0 (daysInMonth py pM)"
    have anchor2: "add_month B (K + - 1) = B\<lparr>dj_year := py, dj_month := pM, dj_date := m'\<rparr>"
      using add_month_prev[OF t(1,2), of B y] by (simp add: K_def B_def m'_def p)
    define den where "den = valueOf (add_month B K) - valueOf (add_month B (K + - 1))"
    have ms: "monthStart y M = monthStart py pM + daysInMonth py pM"
      using monthStart_prev[OF t(1,2), of y] by (simp add: p)
    have den: "den = (daysInMonth py pM + m - m') * 86400000"
      unfolding den_def anchor anchor2 valueOf_moved ms by (simp add: algebra_simps)
    have m'le: "m' \<le> daysInMonth py pM" by (simp add: m'_def)
    have m1: "1 \<le> m" using b daysInMonth_bounds(1)[of y M] by (simp add: m_def)
    have den_pos: "0 < den" unfolding den using m'le m1 by simp
    have "num + den = (D + daysInMonth py pM - m') * 86400000 + ms"
      unfolding num den by (simp add: algebra_simps)
    moreover have "1 * 86400000 \<le> (D + daysInMonth py pM - m') * 86400000"
      using m'le t(3) by (intro mult_right_mono) simp_all
    ultimately have lower: "- den < num" using t(5) by simp
    note r = ratio_neg[OF den_pos neg lower]
    have "monthDiff B T = - (of_int K + of_int num / of_int den)"
      using body neg by (simp add: den_def)
    then have "monthDiff T B = of_int K + of_int num / of_int den"
      by (simp add: swap)
    with r True show ?thesis by (simp add: m_def)
  next
    case False
    with lt t(4) have Dm: "D = daysInMonth y M" "m = daysInMonth y M"
      by (auto simp: m_def min_def split: if_splits)
    have num': "num = ms" unfolding num Dm by simp
    then have nonneg: "\<not> num < 0" using t(5) by simp
    obtain ny nM where n: "nextMonthOf (y, M) = (ny, nM)" by (cases "nextMonthOf (y, M)") auto
    define m'' where "m'' = min D0 (daysInMonth ny nM)"
    have anchor2: "add_month B (K + 1) = B\<lparr>dj_year := ny, dj_month := nM, dj_date := m''\<rparr>"
      using add_month_next[OF t(1,2), of B y] by (simp add: K_def B_def m''_def n)
    define den where "den = valueOf (add_month B (K + 1)) - valueOf (add_month B K)"
    have ms: "monthStart ny nM = monthStart y M + daysInMonth y M"
      using monthStart_next[OF t(1,2), of y] by (simp add: n)
    have den: "den = m'' * 86400000"
      unfolding den_def anchor anchor2 valueOf_moved ms Dm by (simp add: algebra_simps)
    have m1: "1 \<le> m''" using b daysInMonth_bounds(1)[of ny nM] by (simp add: m''_def)
    then have "1 * 86400000 \<le> m'' * 86400000" by (intro mult_right_mono) simp_all
    then have big: "86400000 \<le> den" unfolding den by simp
    then have den_pos: "0 < den" by simp
    have lt_den: "num < den" using big t(6) num' by simp
    have n0: "0 \<le> num" using num' t(5) by simp
    note r = ratio_nonneg[OF den_pos n0 lt_den]
    have "monthDiff B T = - (of_int K + of_int num / of_int den)"
      using body nonneg by (simp add: den_def)
    then have "monthDiff T B = of_int K + of_int num / of_int den"
      by (simp add: swap)
    with r False show ?thesis by (simp add: m_def)
  qed
qed

lemma absFloor_twelfth:
  fixes x :: rat and k :: int
  assumes "of_int k \<le> x" "x < of_int k + 1" "0 \<le> k"
  shows "absFloor (x / 12) = k div 12"
proof -
  have x0: "0 \<le> x" using assms(1,3) by (meson of_int_0_le_iff order_trans)
  then have "\<not> x / 12 < 0" by simp
  then have a: "absFloor (x / 12) = \<lfloor>x / 12\<rfloor>" by (simp add: absFloor_def)
  define q where "q = k div 12"
  define r where "r = k mod 12"
  have k: "k = 12 * q + r" and r: "0 \<le> r" "r < 12" by (simp_all add: q_def r_def)
  have "12 * q \<le> k" using k r by simp
  then have "(of_int (12 * q) :: rat) \<le> of_int k" by (simp only: of_int_le_iff)
  then have lo: "12 * (of_int q :: rat) \<le> x" using assms(1) by simp
  have "k + 1 \<le> 12 * q + 12" using k r by simp
  then have "(of_int (k + 1) :: rat) \<le> of_int (12 * q + 12)" by (simp only: of_int_le_iff)
  then have "(of_int k + 1 :: rat) \<le> of_int (12 * q + 12)" by simp
  then have hi: "x < 12 * (of_int q :: rat) + 12" using assms(2) by simp
  have "\<lfloor>x / 12\<rfloor> = q"
    using lo hi by (intro floor_unique) (simp_all add: field_simps)
  with a show ?thesis by (simp add: q_def)
qed

lemma small_div_12:
  fixes r :: int
  assumes "- 12 \<le> r" "r < 12"
  shows "r div 12 = (if r < 0 then - 1 else 0)"
proof (cases "r < 0")
  case True
  have "r = 12 * (- 1) + (r + 12)" by simp
  then have "r div 12 = - 1"
    using assms True by (intro int_div_pos_eq[where r = "r + 12"]) simp_all
  with True show ?thesis by simp
next
  case False
  with assms show ?thesis by simp
qed

lemma months_div_12:
  fixes d r :: int
  assumes "- 12 \<le> r" "r < 12"
  shows "(d * 12 + r) div 12 = d + (if r < 0 then - 1 else 0)"
proof -
  have "(d * 12 + r) div 12 = d + r div 12" by simp
  with small_div_12[OF assms] show ?thesis by simp
qed

lemma diff_year_formula:
  fixes y M D ms y0 M0 D0 :: int
  defines "T \<equiv> \<lparr>dj_year = y, dj_month = M, dj_date = D, dj_ms = ms\<rparr>"
    and "B \<equiv> \<lparr>dj_year = y0, dj_month = M0, dj_date = D0, dj_ms = 0\<rparr>"
  assumes t: "0 \<le> M" "M < 12" "1 \<le> D" "D \<le> daysInMonth y M" "0 \<le> ms" "ms < 86400000"
    and b: "0 \<le> M0" "M0 < 12" "1 \<le> D0" "D0 \<le> daysInMonth y0 M0"
    and nb: "y0 < y \<or> (y0 = y \<and> (M0 < M \<or> (M0 = M \<and> D0 \<le> D)))"
  shows "diff_year T B =
           y - y0 - (if M < M0 \<or> (M = M0 \<and> D < min D0 (daysInMonth y M)) then 1 else 0)"
proof -
  define K where "K = (y - y0) * 12 + (M - M0)"
  have r: "- 12 \<le> M - M0" "M - M0 < 12" using t b by simp_all
  have r': "- 12 \<le> M - M0 - 1" "M - M0 - 1 < 12" using t b by simp_all
  have K0: "0 \<le> K"
  proof -
    from nb consider "y0 < y" | "y0 = y" "M0 \<le> M" by auto
    then show ?thesis
    proof cases
      case 1
      then have "12 \<le> (y - y0) * 12" by simp
      with r show ?thesis by (simp add: K_def)
    next
      case 2
      then show ?thesis by (simp add: K_def)
    qed
  qed
  have Kd: "K div 12 = y - y0 + (if M < M0 then - 1 else 0)"
    unfolding K_def using months_div_12[OF r, of "y - y0"] by simp
  have K1d: "(K - 1) div 12 = y - y0 + (if M \<le> M0 then - 1 else 0)"
  proof -
    have "K - 1 = (y - y0) * 12 + (M - M0 - 1)" by (simp add: K_def)
    then show ?thesis using months_div_12[OF r', of "y - y0"] by auto
  qed
  show ?thesis
  proof (cases "D0 \<le> D")
    case True
    from monthDiff_case1[where y = y, OF t(1,2,3,5,6) b True]
    have bd: "of_int K \<le> monthDiff T B" "monthDiff T B < of_int K + 1"
      by (simp_all add: T_def B_def K_def)
    have "diff_year T B = K div 12"
      unfolding diff_year_def by (rule absFloor_twelfth[OF bd K0])
    moreover have "\<not> D < min D0 (daysInMonth y M)" using True by simp
    ultimately show ?thesis using Kd by auto
  next
    case False
    then have lt: "D < D0" by simp
    with nb have later: "y0 < y \<or> (y0 = y \<and> M0 < M)" by auto
    have K1: "1 \<le> K"
    proof -
      from later consider "y0 < y" | "y0 = y" "M0 < M" by auto
      then show ?thesis
      proof cases
        case 1
        then have "12 \<le> (y - y0) * 12" by simp
        with t(1) b(2) show ?thesis by (simp add: K_def)
      next
        case 2
        then show ?thesis by (simp add: K_def)
      qed
    qed
    note c2 = monthDiff_case2[where ?y0.0 = y0 and ?M0.0 = M0, OF t b(3) lt, folded T_def B_def K_def]
    show ?thesis
    proof (cases "D < min D0 (daysInMonth y M)")
      case True
      with c2 have bd: "of_int K - 1 < monthDiff T B" "monthDiff T B < of_int K" by simp_all
      have bd': "of_int (K - 1) \<le> monthDiff T B" "monthDiff T B < of_int (K - 1) + 1"
        using bd by simp_all
      have "diff_year T B = (K - 1) div 12"
        unfolding diff_year_def by (rule absFloor_twelfth[OF bd']) (use K1 in simp)
      with K1d True show ?thesis by auto
    next
      case False
      with c2 have bd: "of_int K \<le> monthDiff T B" "monthDiff T B < of_int K + 1" by simp_all
      have "diff_year T B = K div 12"
        unfolding diff_year_def by (rule absFloor_twelfth[OF bd K0])
      with Kd False show ?thesis by auto
    qed
  qed
qed

lemma getPersonAge_formula:
  assumes v: "denotesCalendarDate (birthDate p)" "100 \<le> yearField (birthDate p)"
    and t: "validDayjs today"
    and nb: "notBeforeBirth (birthDate p) today"
  shows "getPersonAge p today =
           Some (dj_year today - yearField (birthDate p)
                 - (if beforeAnniversary (birthDate p) today then 1 else 0))"
proof -
  let ?s = "birthDate p"
  let ?B = "\<lparr>dj_year = yearField ?s, dj_month = monthField ?s - 1, dj_date = dayField ?s, dj_ms = 0\<rparr>"
  have parse: "dayjs_strict ?s = Some ?B" using v by (simp add: dayjs_strict_iff)
  from v(1) have real: "1 \<le> monthField ?s" "monthField ?s \<le> 12" "1 \<le> dayField ?s"
    "dayField ?s \<le> daysInMonth (yearField ?s) (monthField ?s - 1)"
    by (simp_all add: denotesCalendarDate_def realCalendarDate_def)
  obtain y M D ms where T: "today = \<lparr>dj_year = y, dj_month = M, dj_date = D, dj_ms = ms\<rparr>"
    by (cases today) auto
  from t have tv: "0 \<le> M" "M < 12" "1 \<le> D" "D \<le> daysInMonth y M" "0 \<le> ms" "ms < 86400000"
    by (simp_all add: validDayjs_def T)
  have bv: "0 \<le> monthField ?s - 1" "monthField ?s - 1 < 12" using real by simp_all
  have nb': "yearField ?s < y \<or> (yearField ?s = y \<and>
      (monthField ?s - 1 < M \<or> (monthField ?s - 1 = M \<and> dayField ?s \<le> D)))"
    using nb by (simp add: notBeforeBirth_def T)
  from diff_year_formula[OF tv bv real(3,4) nb']
  have "diff_year today ?B = y - yearField ?s
      - (if M < monthField ?s - 1 \<or> (M = monthField ?s - 1 \<and> D < min (dayField ?s) (daysInMonth y M))
         then 1 else 0)"
    by (simp add: T)
  then show ?thesis
    by (simp add: getPersonAge_def parse beforeAnniversary_def T)
qed

lemma anniversary_day_exact:
  assumes v: "denotesCalendarDate s"
    and n29: "\<not> (monthField s = 2 \<and> dayField s = 29)"
  shows "beforeAnniversary s today \<longleftrightarrow>
           dj_month today < monthField s - 1 \<or>
           (dj_month today = monthField s - 1 \<and> dj_date today < dayField s)"
proof -
  from v have d: "dayField s \<le> daysInMonth (yearField s) (monthField s - 1)"
    by (simp add: denotesCalendarDate_def realCalendarDate_def)
  have "dayField s \<le> daysInMonth y (monthField s - 1)" for y
  proof (cases "monthField s = 2")
    case True
    with d n29 have "dayField s \<le> 28" by (auto simp: daysInMonth_def split: if_splits)
    with True show ?thesis by (simp add: daysInMonth_def)
  next
    case False
    with d show ?thesis by (simp add: daysInMonth_def)
  qed
  then have le: "dayField s \<le> daysInMonth (dj_year today) (monthField s - 1)" .
  show ?thesis
  proof (cases "dj_month today = monthField s - 1")
    case True
    with le have "min (dayField s) (daysInMonth (dj_year today) (dj_month today)) = dayField s"
      by simp
    with True show ?thesis by (simp add: beforeAnniversary_def)
  next
    case False
    then show ?thesis by (simp add: beforeAnniversary_def)
  qed
qed

lemma anniversary_day_leap:
  assumes "monthField s = 2" "dayField s = 29"
  shows "beforeAnniversary s today \<longleftrightarrow>
           dj_month today < 1 \<or>
           (dj_month today = 1 \<and>
            dj_date today < (if isLeapYear (dj_year today) then 29 else 28))"
  using assms by (auto simp: beforeAnniversary_def daysInMonth_def)

text \<open>
  Claim C2, as the code has it. For every person whose \<open>birthDate\<close> the strict parse
  accepts and every reference moment not before the day of birth, \<open>getPersonAge\<close> returns
  the difference of the years, less one while this year's anniversary has not been
  reached: it is 0 on the day of birth and goes up by one on each anniversary, not
  before. The anniversary is the day with the same day of the month and the same
  month; for a birth on 29 February it is 28 February in a year that is not a leap
  year. So a person born on 15.06.1990 has age 33 on 14.06.2024 and age 34 on
  15.06.2024.
\<close>

theorem age_is_completed_years:
  assumes "denotesCalendarDate (birthDate p)" and "100 \<le> yearField (birthDate p)"
    and "validDayjs today" and "notBeforeBirth (birthDate p) today"
  shows "getPersonAge p today =
           Some (dj_year today - yearField (birthDate p)
                 - (if beforeAnniversary (birthDate p) today then 1 else 0)) \<and>
         (dj_year today = yearField (birthDate p) \<and> dj_month today = monthField (birthDate p) - 1 \<and>
          dj_date today = dayField (birthDate p) \<longrightarrow> getPersonAge p today = Some 0) \<and>
         (\<not> (monthField (birthDate p) = 2 \<and> dayField (birthDate p) = 29) \<longrightarrow>
            (beforeAnniversary (birthDate p) today \<longleftrightarrow>
               dj_month today < monthField (birthDate p) - 1 \<or>
               (dj_month today = monthField (birthDate p) - 1 \<and>
                dj_date today < dayField (birthDate p)))) \<and>
         (monthField (birthDate p) = 2 \<and> dayField (birthDate p) = 29 \<longrightarrow>
            (beforeAnniversary (birthDate p) today \<longleftrightarrow>
               dj_month today < 1 \<or>
               (dj_month today = 1 \<and>
                dj_date today < (if isLeapYear (dj_year today) then 29 else 28))))"
proof -
  note f = getPersonAge_formula[OF assms]
  have z: "getPersonAge p today = Some 0"
    if "dj_year today = yearField (birthDate p) \<and> dj_month today = monthField (birthDate p) - 1 \<and>
        dj_date today = dayField (birthDate p)"
  proof -
    from assms(3) that have "dayField (birthDate p) \<le>
        daysInMonth (dj_year today) (dj_month today)"
      by (simp add: validDayjs_def)
    with that have "\<not> beforeAnniversary (birthDate p) today"
      by (simp add: beforeAnniversary_def)
    with f that show ?thesis by simp
  qed
  from f z anniversary_day_exact[OF assms(1), of today] anniversary_day_leap[of "birthDate p" today]
  show ?thesis by blast
qed

lemmas age_eval = date_eval validDayjs_def notBeforeBirth_def beforeAnniversary_def

text \<open>
  An instance: born on 15.06.1990, age 34 on 15.06.2024 and age 0 on the day of birth.
\<close>

theorem age_is_completed_years_witness:
  "getPersonAge \<lparr>name = ''Ivan'', birthDate = ''15.06.1990'',
                  telegramUsername = Some ''ivan_petrov'', id' = 1\<rparr>
     \<lparr>dj_year = 2024, dj_month = 5, dj_date = 15, dj_ms = 39600000\<rparr> = Some 34 \<and>
   getPersonAge \<lparr>name = ''Ivan'', birthDate = ''15.06.1990'',
                  telegramUsername = Some ''ivan_petrov'', id' = 1\<rparr>
     \<lparr>dj_year = 1990, dj_month = 5, dj_date = 15, dj_ms = 39600000\<rparr> = Some 0"
proof -
  let ?ivan = "\<lparr>name = ''Ivan'', birthDate = ''15.06.1990'',
                telegramUsername = Some ''ivan_petrov'', id' = 1\<rparr>"
  let ?t1 = "\<lparr>dj_year = 2024, dj_month = 5, dj_date = 15, dj_ms = 39600000\<rparr>"
  let ?t0 = "\<lparr>dj_year = 1990, dj_month = 5, dj_date = 15, dj_ms = 39600000\<rparr>"
  have v: "denotesCalendarDate (birthDate ?ivan)" "100 \<le> yearField (birthDate ?ivan)"
    by (simp_all add: date_eval)
  have t1: "validDayjs ?t1" "notBeforeBirth (birthDate ?ivan) ?t1"
    by (simp_all add: age_eval)
  have t0: "validDayjs ?t0" "notBeforeBirth (birthDate ?ivan) ?t0"
    by (simp_all add: age_eval)
  have f: "yearField (birthDate ?ivan) = 1990" "\<not> beforeAnniversary (birthDate ?ivan) ?t1"
    "monthField (birthDate ?ivan) = 6" "dayField (birthDate ?ivan) = 15"
    by (simp_all add: age_eval)
  from age_is_completed_years[OF v t1] f have "getPersonAge ?ivan ?t1 = Some 34" by simp
  moreover from age_is_completed_years[OF v t0] f have "getPersonAge ?ivan ?t0 = Some 0" by simp
  ultimately show ?thesis by simp
qed

text \<open>
  Counterexample to C2 as stated: the person born on 15.06.1990 has age 33, not 34, on
  14.06.2024 and age 34, not 35, on 15.06.2024; and the age of a person born on
  29.02.2000 goes from 0 to 1 on 28.02.2001, a day that is not the day and month of
  the birth.
\<close>

theorem age_examples_of_the_claim_fail:
  "getPersonAge \<lparr>name = ''Ivan'', birthDate = ''15.06.1990'',
                  telegramUsername = Some ''ivan_petrov'', id' = 1\<rparr>
     \<lparr>dj_year = 2024, dj_month = 5, dj_date = 14, dj_ms = 39600000\<rparr> = Some 33 \<and>
   getPersonAge \<lparr>name = ''Ivan'', birthDate = ''15.06.1990'',
                  telegramUsername = Some ''ivan_petrov'', id' = 1\<rparr>
     \<lparr>dj_year = 2024, dj_month = 5, dj_date = 14, dj_ms = 39600000\<rparr> \<noteq> Some 34 \<and>
   getPersonAge \<lparr>name = ''Ivan'', birthDate = ''15.06.1990'',
                  telegramUsername = Some ''ivan_petrov'', id' = 1\<rparr>
     \<lparr>dj_year = 2024, dj_month = 5, dj_date = 15, dj_ms = 39600000\<rparr> = Some 34 \<and>
   getPersonAge \<lparr>name = ''Ivan'', birthDate = ''15.06.1990'',
                  telegramUsername = Some ''ivan_petrov'', id' = 1\<rparr>
     \<lparr>dj_year = 2024, dj_month = 5, dj_date = 15, dj_ms = 39600000\<rparr> \<noteq> Some 35 \<and>
   getPersonAge \<lparr>name = ''Leap'', birthDate = ''29.02.2000'', telegramUsername = None, id' = 2\<rparr>
     \<lparr>dj_year = 2001, dj_month = 1, dj_date = 27, dj_ms = 39600000\<rparr> = Some 0 \<and>
   getPersonAge \<lparr>name = ''Leap'', birthDate = ''29.02.2000'', telegramUsername = None, id' = 2\<rparr>
     \<lparr>dj_year = 2001, dj_month = 1, dj_date = 28, dj_ms = 39600000\<rparr> = Some 1"
proof -
  let ?ivan = "\<lparr>name = ''Ivan'', birthDate = ''15.06.1990'',
                telegramUsername = Some ''ivan_petrov'', id' = 1\<rparr>"
  let ?leap = "\<lparr>name = ''Leap'', birthDate = ''29.02.2000'', telegramUsername = None, id' = 2\<rparr>"
  have a: "getPersonAge ?ivan \<lparr>dj_year = 2024, dj_month = 5, dj_date = 14, dj_ms = 39600000\<rparr>
           = Some 33"
    by (subst getPersonAge_formula) (simp_all add: age_eval)
  have b: "getPersonAge ?ivan \<lparr>dj_year = 2024, dj_month = 5, dj_date = 15, dj_ms = 39600000\<rparr>
           = Some 34"
    by (subst getPersonAge_formula) (simp_all add: age_eval)
  have c: "getPersonAge ?leap \<lparr>dj_year = 2001, dj_month = 1, dj_date = 27, dj_ms = 39600000\<rparr>
           = Some 0"
    by (subst getPersonAge_formula) (simp_all add: age_eval)
  have d: "getPersonAge ?leap \<lparr>dj_year = 2001, dj_month = 1, dj_date = 28, dj_ms = 39600000\<rparr>
           = Some 1"
    by (subst getPersonAge_formula) (simp_all add: age_eval)
  from a b c d show ?thesis by simp
qed

text \<open>The scenario of the specification: born 01.01.2000, age 25 on 01.01.2025.\<close>

lemma age_scenario_example:
  "getPersonAge \<lparr>name = ''A'', birthDate = ''01.01.2000'', telegramUsername = None, id' = 1\<rparr>
     \<lparr>dj_year = 2025, dj_month = 0, dj_date = 1, dj_ms = 39600000\<rparr> = Some 25"
  by (subst getPersonAge_formula) (simp_all add: age_eval)

end
